theory Spec2Isabelle
  imports Main "HOL-Library.Sublist"
begin

section \<open>The file system\<close>

text \<open>
  \<open>flatdir.py\<close> works on the file system through \<open>pathlib\<close> and \<open>shutil\<close>. The model
  is a store from absolute paths to nodes. A path is the list of its components below
  the root (\<open>Path.resolve\<close> has been applied by \<open>main\<close>, so two paths denote the same
  directory exactly when they are equal). A plain file has its bytes and its mode: whether
  the program may open it for reading, and whether it may open it for writing. A
  directory has the names that \<open>os.listdir\<close> returns for it, in the order in which it
  returns them. Symbolic links, special files and the permissions of directories are not
  modelled; the program is taken to run as the owner of the files and not as the
  superuser, so that the mode decides what it may open.
\<close>

type_synonym path = "string list"

datatype mode = Mode (readable: bool) (writable: bool)

abbreviation rw :: mode where
  "rw \<equiv> Mode True True"

datatype node = File (mode: mode) (content: "nat list") | Dir (names: "string list")

type_synonym filesystem = "path \<rightharpoonup> node"

datatype error =
  SameFileError | IsADirectoryError | NotADirectoryError | FileNotFoundError | PermissionError

text \<open>
  What a call has done is kept in the state: the file system, the lines printed on
  standard output (each \<open>Copying '<outfile>'\<close> line is kept as the path it names), and
  a trace of what happened to every plain file the loop reached. The trace is
  bookkeeping for the statements below: the program never reads it.
\<close>

datatype event =
  Skipped path
| Copied path path "nat list"
| Failed path error

record state =
  fs :: filesystem
  out :: "path list"
  trace :: "event list"

text \<open>\<open>path.name\<close>: the last component, and the empty string for the root.\<close>

definition name :: "path \<Rightarrow> string" where
  "name p = (if p = [] then [] else last p)"

definition exists_path :: "state \<Rightarrow> path \<Rightarrow> bool" where
  "exists_path s p = (fs s p \<noteq> None)"

definition is_dir :: "state \<Rightarrow> path \<Rightarrow> bool" where
  "is_dir s p = (case fs s p of Some (Dir ns) \<Rightarrow> True | _ \<Rightarrow> False)"

definition is_file :: "state \<Rightarrow> path \<Rightarrow> bool" where
  "is_file s p = (case fs s p of Some (File rd bs) \<Rightarrow> True | _ \<Rightarrow> False)"

text \<open>\<open>Path.iterdir\<close>: the entries of a directory, listed when the loop starts.\<close>

definition iterdir :: "state \<Rightarrow> path \<Rightarrow> error + path list" where
  "iterdir s p =
     (case fs s p of
        Some (Dir ns) \<Rightarrow> Inr (map (\<lambda>n. p @ [n]) ns)
      | Some (File rd bs) \<Rightarrow> Inl NotADirectoryError
      | None \<Rightarrow> Inl FileNotFoundError)"

text \<open>
  \<open>path.stat().st_size\<close>. The program asks it of a plain file that it has just copied;
  for anything else the model answers with an error, and lemma \<open>file_step_Inl\<close> below
  shows that this answer is never reached.
\<close>

definition st_size :: "state \<Rightarrow> path \<Rightarrow> error + int" where
  "st_size s p =
     (case fs s p of
        Some (File rd bs) \<Rightarrow> Inr (int (length bs))
      | _ \<Rightarrow> Inl FileNotFoundError)"

text \<open>
  Writing a plain file with a given mode: the node is stored, and a new name is added to
  the listing of the directory that holds it.
\<close>

definition write_file :: "filesystem \<Rightarrow> path \<Rightarrow> mode \<Rightarrow> nat list \<Rightarrow> filesystem" where
  "write_file f dst m bs =
     (case f (butlast dst) of
        Some (Dir ns) \<Rightarrow>
          (if last dst \<in> set ns then f(dst \<mapsto> File m bs)
           else f(butlast dst \<mapsto> Dir (ns @ [last dst]), dst \<mapsto> File m bs))
      | _ \<Rightarrow> f(dst \<mapsto> File m bs))"

text \<open>
  \<open>shutil.copy(src, dst)\<close>. If \<open>dst\<close> is a directory the file goes into it, under the
  base name of \<open>src\<close>. \<open>copyfile\<close> then refuses to copy a file onto itself, opens the
  source for reading and the target for writing, and writes the bytes; \<open>copymode\<close> gives
  the target the mode of the source. The result is the path written, the bytes written
  and the new file system.

  The failures are raised in the order in which \<open>copyfile\<close> meets them: the copy of a
  file onto itself (\<open>SameFileError\<close>); a source that is missing, is a directory or may
  not be read; a target that is a directory or an existing file that may not be
  written; a target whose directory is missing or is a plain file. A full disk and an
  interrupted write are not modelled.
\<close>

definition shutil_copy :: "filesystem \<Rightarrow> path \<Rightarrow> path \<Rightarrow> error + (path \<times> nat list \<times> filesystem)" where
  "shutil_copy f src dst =
     (let dst' = (case f dst of Some (Dir ns) \<Rightarrow> dst @ [name src] | _ \<Rightarrow> dst) in
      if src = dst' \<and> f src \<noteq> None then Inl SameFileError
      else case f src of
        None \<Rightarrow> Inl FileNotFoundError
      | Some (Dir ns) \<Rightarrow> Inl IsADirectoryError
      | Some (File m bs) \<Rightarrow>
          if \<not> readable m then Inl PermissionError
          else (case f dst' of
            Some (Dir ns) \<Rightarrow> Inl IsADirectoryError
          | Some (File m' bs') \<Rightarrow>
              if \<not> writable m' then Inl PermissionError
              else Inr (dst', bs, write_file f dst' m bs)
          | None \<Rightarrow>
              (case f (butlast dst') of
                 Some (Dir ns) \<Rightarrow> Inr (dst', bs, write_file f dst' m bs)
               | Some (File m' bs') \<Rightarrow> Inl NotADirectoryError
               | None \<Rightarrow> Inl FileNotFoundError)))"

section \<open>The traversal\<close>

text \<open>
  \<open>flatten_dir\<close> of \<open>flatdir.py\<close>, with the \<open>for\<close> loop over \<open>indir.iterdir()\<close> as
  \<open>flatten_loop\<close>: its arguments are the entries still to come and the running totals
  \<open>(n_files, n_bytes)\<close>. An exception is a result \<open>Inl\<close>; the state that comes with it
  is the one in which it was raised.
\<close>

function flatten_dir :: "path \<Rightarrow> path \<Rightarrow> int \<Rightarrow> bool \<Rightarrow> bool \<Rightarrow> state \<Rightarrow> (error + int \<times> int) \<times> state"
  and flatten_loop :: "path list \<Rightarrow> path \<Rightarrow> int \<Rightarrow> bool \<Rightarrow> bool \<Rightarrow> int \<times> int \<Rightarrow> state \<Rightarrow> (error + int \<times> int) \<times> state"
where
  "flatten_dir indir outdir recursions_left verbose overwrite s =
     (if recursions_left < 0 \<or> indir = outdir then (Inr (0, 0), s)
      else case iterdir s indir of
        Inl e \<Rightarrow> (Inl e, s)
      | Inr paths \<Rightarrow> flatten_loop paths outdir recursions_left verbose overwrite (0, 0) s)"
| "flatten_loop [] outdir recursions_left verbose overwrite (n_files, n_bytes) s =
     (Inr (n_files, n_bytes), s)"
| "flatten_loop (path # rest) outdir recursions_left verbose overwrite (n_files, n_bytes) s =
     (if is_dir s path then
        (case flatten_dir path outdir (recursions_left - 1) verbose overwrite s of
           (Inl e, s') \<Rightarrow> (Inl e, s')
         | (Inr (sub_files, sub_bytes), s') \<Rightarrow>
             flatten_loop rest outdir recursions_left verbose overwrite
               (n_files + sub_files, n_bytes + sub_bytes) s')
      else if is_file s path then
        (let outfile = outdir @ [name path] in
         if exists_path s outfile \<and> \<not> overwrite then
           flatten_loop rest outdir recursions_left verbose overwrite (n_files, n_bytes)
             (s\<lparr>trace := trace s @ [Skipped path]\<rparr>)
         else
           (let s1 = (if verbose then s\<lparr>out := out s @ [outfile]\<rparr> else s) in
            case shutil_copy (fs s1) path outfile of
              Inl e \<Rightarrow> (Inl e, s1\<lparr>trace := trace s1 @ [Failed path e]\<rparr>)
            | Inr (dst, bs, f') \<Rightarrow>
                (let s2 = s1\<lparr>fs := f', trace := trace s1 @ [Copied path dst bs]\<rparr> in
                 case st_size s2 path of
                   Inl e \<Rightarrow> (Inl e, s2)
                 | Inr sz \<Rightarrow>
                     flatten_loop rest outdir recursions_left verbose overwrite
                       (n_files + 1, n_bytes + sz) s2)))
      else flatten_loop rest outdir recursions_left verbose overwrite (n_files, n_bytes) s)"
  by pat_completeness auto
termination
  by (relation "measures
        [\<lambda>x. case x of
               Inl (indir, outdir, r, v, ow, s) \<Rightarrow> (if r < 0 then 0 else 2 * nat r + 2)
             | Inr (ps, outdir, r, v, ow, acc, s) \<Rightarrow> (if r < 0 then 1 else 2 * nat r + 1),
         \<lambda>x. case x of
               Inl (indir, outdir, r, v, ow, s) \<Rightarrow> 0
             | Inr (ps, outdir, r, v, ow, acc, s) \<Rightarrow> length ps]") auto

section \<open>Notions used in the statements\<close>

text \<open>
  The body of the \<open>elif path.is_file()\<close> branch, on its own: what one plain file
  contributes to the totals, and the state after it. \<open>continue\<close> contributes
  \<open>(0, 0)\<close>. Lemma \<open>flatten_loop_file\<close> below shows that \<open>flatten_loop\<close> does
  exactly this for a plain file.
\<close>

definition file_step :: "path \<Rightarrow> bool \<Rightarrow> bool \<Rightarrow> path \<Rightarrow> state \<Rightarrow> (error + int \<times> int) \<times> state" where
  "file_step outdir verbose overwrite path s =
     (let outfile = outdir @ [name path] in
      if exists_path s outfile \<and> \<not> overwrite then
        (Inr (0, 0), s\<lparr>trace := trace s @ [Skipped path]\<rparr>)
      else
        (let s1 = (if verbose then s\<lparr>out := out s @ [outfile]\<rparr> else s) in
         case shutil_copy (fs s1) path outfile of
           Inl e \<Rightarrow> (Inl e, s1\<lparr>trace := trace s1 @ [Failed path e]\<rparr>)
         | Inr (dst, bs, f') \<Rightarrow>
             (let s2 = s1\<lparr>fs := f', trace := trace s1 @ [Copied path dst bs]\<rparr> in
              case st_size s2 path of
                Inl e \<Rightarrow> (Inl e, s2)
              | Inr sz \<Rightarrow> (Inr (1, sz), s2))))"

text \<open>The file branch applied to a list of plain files, one after the other.\<close>

fun run_files :: "path list \<Rightarrow> path \<Rightarrow> bool \<Rightarrow> bool \<Rightarrow> int \<times> int \<Rightarrow> state \<Rightarrow> (error + int \<times> int) \<times> state" where
  "run_files [] outdir verbose overwrite (n_files, n_bytes) s = (Inr (n_files, n_bytes), s)"
| "run_files (path # rest) outdir verbose overwrite (n_files, n_bytes) s =
     (case file_step outdir verbose overwrite path s of
        (Inl e, s') \<Rightarrow> (Inl e, s')
      | (Inr (df, db), s') \<Rightarrow> run_files rest outdir verbose overwrite (n_files + df, n_bytes + db) s')"

text \<open>
  The plain files of a tree, in the order of the listings: \<open>files_within f d r\<close> are
  those at most \<open>r\<close> directory levels below \<open>d\<close>, and \<open>planned_files f outdir d r\<close>
  are those among them that are not reached through \<open>outdir\<close>.
\<close>

function files_within :: "filesystem \<Rightarrow> path \<Rightarrow> int \<Rightarrow> path list" where
  "files_within f d r =
     (if r < 0 then []
      else case f d of
        Some (Dir ns) \<Rightarrow>
          concat (map (\<lambda>n. case f (d @ [n]) of
                              Some (Dir ms) \<Rightarrow> files_within f (d @ [n]) (r - 1)
                            | Some (File rd bs) \<Rightarrow> [d @ [n]]
                            | None \<Rightarrow> []) ns)
      | _ \<Rightarrow> [])"
  by pat_completeness auto
termination
  by (relation "measure (\<lambda>(f, d, r). nat (r + 1))") auto

function planned_files :: "filesystem \<Rightarrow> path \<Rightarrow> path \<Rightarrow> int \<Rightarrow> path list" where
  "planned_files f outdir d r =
     (if r < 0 \<or> d = outdir then []
      else case f d of
        Some (Dir ns) \<Rightarrow>
          concat (map (\<lambda>n. case f (d @ [n]) of
                              Some (Dir ms) \<Rightarrow> planned_files f outdir (d @ [n]) (r - 1)
                            | Some (File rd bs) \<Rightarrow> [d @ [n]]
                            | None \<Rightarrow> []) ns)
      | _ \<Rightarrow> [])"
  by pat_completeness auto
termination
  by (relation "measure (\<lambda>(f, outdir, d, r). nat (r + 1))") auto

text \<open>
  \<open>file_at_depth s d k p\<close>: \<open>p\<close> is a plain file that is reached from \<open>d\<close> through
  exactly \<open>k\<close> subdirectories. The plain files among the entries of \<open>d\<close> itself are at
  depth 0.
\<close>

fun file_at_depth :: "state \<Rightarrow> path \<Rightarrow> nat \<Rightarrow> path \<Rightarrow> bool" where
  "file_at_depth s d 0 p =
     (case iterdir s d of
        Inr paths \<Rightarrow> p \<in> set paths \<and> is_file s p
      | Inl e \<Rightarrow> False)"
| "file_at_depth s d (Suc k) p =
     (case iterdir s d of
        Inr paths \<Rightarrow> list_ex (\<lambda>q. is_dir s q \<and> file_at_depth s q k p) paths
      | Inl e \<Rightarrow> False)"

definition entry_files :: "filesystem \<Rightarrow> int \<Rightarrow> path \<Rightarrow> path list" where
  "entry_files f r p =
     (case f p of
        Some (Dir ms) \<Rightarrow> files_within f p (r - 1)
      | Some (File rd bs) \<Rightarrow> [p]
      | None \<Rightarrow> [])"

text \<open>
  A file system is well formed when no directory lists a name twice and every listed
  name is there.
\<close>

definition wf_fs :: "filesystem \<Rightarrow> bool" where
  "wf_fs f = (\<forall>d ns. f d = Some (Dir ns) \<longrightarrow> distinct ns \<and> (\<forall>n \<in> set ns. f (d @ [n]) \<noteq> None))"

text \<open>The events a call has added to the trace, and what they say.\<close>

definition new_events :: "state \<Rightarrow> state \<Rightarrow> event list" where
  "new_events s s' = drop (length (trace s)) (trace s')"

fun event_path :: "event \<Rightarrow> path" where
  "event_path (Skipped p) = p"
| "event_path (Copied p dst bs) = p"
| "event_path (Failed p e) = p"

fun is_copied :: "event \<Rightarrow> bool" where
  "is_copied (Copied p dst bs) = True"
| "is_copied ev = False"

fun is_failed :: "event \<Rightarrow> bool" where
  "is_failed (Failed p e) = True"
| "is_failed ev = False"

fun bytes_written :: "event \<Rightarrow> int" where
  "bytes_written (Copied p dst bs) = int (length bs)"
| "bytes_written ev = 0"

text \<open>
  The line an event has printed when \<open>verbose\<close> is set: \<open>print\<close> comes before
  \<open>shutil.copy\<close>, so a copy that fails has printed its line too.
\<close>

fun notification :: "path \<Rightarrow> event \<Rightarrow> path list" where
  "notification outdir (Skipped p) = []"
| "notification outdir (Copied p dst bs) = [outdir @ [name p]]"
| "notification outdir (Failed p e) = [outdir @ [name p]]"

definition file_size :: "filesystem \<Rightarrow> path \<Rightarrow> int" where
  "file_size f p = (case f p of Some (File rd bs) \<Rightarrow> int (length bs) | _ \<Rightarrow> 0)"

text \<open>
  The bytes of the plain file at a path, if there is one, and what a list of events says
  about a path: the bytes of the last copy that was written to it, if there was one.
\<close>

definition file_bytes :: "state \<Rightarrow> path \<Rightarrow> nat list option" where
  "file_bytes s p = (case fs s p of Some (File m bs) \<Rightarrow> Some bs | _ \<Rightarrow> None)"

fun copy_to :: "event \<Rightarrow> path \<Rightarrow> nat list option" where
  "copy_to (Copied p dst bs) q = (if dst = q then Some bs else None)"
| "copy_to ev q = None"

fun last_copy :: "event list \<Rightarrow> path \<Rightarrow> nat list option" where
  "last_copy [] q = None"
| "last_copy (ev # evs) q =
     (case last_copy evs q of
        Some bs \<Rightarrow> Some bs
      | None \<Rightarrow> copy_to ev q)"

definition planned_entry :: "filesystem \<Rightarrow> path \<Rightarrow> int \<Rightarrow> path \<Rightarrow> path list" where
  "planned_entry f outdir r p =
     (case f p of
        Some (Dir ms) \<Rightarrow> planned_files f outdir p (r - 1)
      | Some (File rd bs) \<Rightarrow> [p]
      | None \<Rightarrow> [])"

text \<open>
  How a file system may change while the traversal runs: nothing is removed, a plain
  file stays a plain file, a directory stays a directory and keeps the names it lists,
  and the only listings that get new names are those of \<open>outdir\<close> and of the
  directories in \<open>outdir\<close>. What is new is a plain file.
\<close>

definition grows :: "path \<Rightarrow> filesystem \<Rightarrow> filesystem \<Rightarrow> bool" where
  "grows outdir f f' =
     (\<forall>q. (f q = None \<longrightarrow> (\<forall>ns'. f' q \<noteq> Some (Dir ns'))) \<and>
          (\<forall>rd bs. f q = Some (File rd bs) \<longrightarrow> (\<exists>rd' bs'. f' q = Some (File rd' bs'))) \<and>
          (\<forall>ns. f q = Some (Dir ns) \<longrightarrow>
             (\<exists>ns'. f' q = Some (Dir ns') \<and> set ns \<subseteq> set ns' \<and>
                (ns' = ns \<or> q = outdir \<or> (q \<noteq> [] \<and> butlast q = outdir)))))"

section \<open>Example file systems\<close>

text \<open>
  The tree of the specification's depth example: \<open>root/a.txt\<close> (10 bytes),
  \<open>root/sub/b.txt\<close> (20 bytes) and \<open>root/sub/sub2/c.txt\<close> (30 bytes), with an empty
  directory \<open>out\<close> beside \<open>root\<close>.
\<close>

definition tree_fs :: filesystem where
  "tree_fs = map_of
     [([], Dir [''root'', ''out'']),
      ([''root''], Dir [''a.txt'', ''sub'']),
      ([''root'', ''a.txt''], File rw (replicate 10 0)),
      ([''root'', ''sub''], Dir [''b.txt'', ''sub2'']),
      ([''root'', ''sub'', ''b.txt''], File rw (replicate 20 0)),
      ([''root'', ''sub'', ''sub2''], Dir [''c.txt'']),
      ([''root'', ''sub'', ''sub2'', ''c.txt''], File rw (replicate 30 0)),
      ([''out''], Dir [])]"

definition tree_state :: state where
  "tree_state = \<lparr>fs = tree_fs, out = [], trace = []\<rparr>"

text \<open>
  A source directory \<open>src\<close> with the files \<open>f\<close> and \<open>h\<close>, and a destination \<open>out\<close>
  that already has a file \<open>f\<close> and a file \<open>g\<close>.
\<close>

definition collision_fs :: filesystem where
  "collision_fs = map_of
     [([], Dir [''src'', ''out'']),
      ([''src''], Dir [''f'', ''h'']),
      ([''src'', ''f''], File rw [1, 2, 3]),
      ([''src'', ''h''], File rw [4]),
      ([''out''], Dir [''f'', ''g'']),
      ([''out'', ''f''], File rw [9]),
      ([''out'', ''g''], File rw [7, 7])]"

definition collision_state :: state where
  "collision_state = \<lparr>fs = collision_fs, out = [], trace = []\<rparr>"

text \<open>A source directory whose second file cannot be read.\<close>

definition locked_fs :: filesystem where
  "locked_fs = map_of
     [([], Dir [''src'', ''out'']),
      ([''src''], Dir [''a'', ''b'', ''c'']),
      ([''src'', ''a''], File rw [1]),
      ([''src'', ''b''], File (Mode False True) [2, 2]),
      ([''src'', ''c''], File rw [3, 3, 3]),
      ([''out''], Dir [])]"

definition locked_state :: state where
  "locked_state = \<lparr>fs = locked_fs, out = [], trace = []\<rparr>"

text \<open>
  The destination inside the source tree: \<open>a/f\<close>, and \<open>a/out\<close> with a file \<open>f\<close> and a
  file \<open>g\<close> of its own.
\<close>

definition nested_fs :: filesystem where
  "nested_fs = map_of
     [([], Dir [''a'']),
      ([''a''], Dir [''f'', ''out'']),
      ([''a'', ''f''], File rw [1]),
      ([''a'', ''out''], Dir [''f'', ''g'']),
      ([''a'', ''out'', ''f''], File rw [2, 2]),
      ([''a'', ''out'', ''g''], File rw [5, 5, 5])]"

definition nested_state :: state where
  "nested_state = \<lparr>fs = nested_fs, out = [], trace = []\<rparr>"

text \<open>
  The destination inside the source tree again, with a file two levels below it:
  \<open>a/f\<close> and \<open>a/out/sub/g\<close>.
\<close>

definition nested_deep_fs :: filesystem where
  "nested_deep_fs = map_of
     [([], Dir [''a'']),
      ([''a''], Dir [''f'', ''out'']),
      ([''a'', ''f''], File rw [1]),
      ([''a'', ''out''], Dir [''sub'']),
      ([''a'', ''out'', ''sub''], Dir [''g'']),
      ([''a'', ''out'', ''sub'', ''g''], File rw [5, 5, 5])]"

definition nested_deep_state :: state where
  "nested_deep_state = \<lparr>fs = nested_deep_fs, out = [], trace = []\<rparr>"

text \<open>
  The source \<open>o/d\<close> inside the destination \<open>o\<close>, with a file \<open>o/d/e/d\<close> that has the
  name of the source directory.
\<close>

definition parent_fs :: filesystem where
  "parent_fs = map_of
     [([], Dir [''o'']),
      ([''o''], Dir [''d'']),
      ([''o'', ''d''], Dir [''e'']),
      ([''o'', ''d'', ''e''], Dir [''d'']),
      ([''o'', ''d'', ''e'', ''d''], File rw [1, 2])]"

definition parent_state :: state where
  "parent_state = \<lparr>fs = parent_fs, out = [], trace = []\<rparr>"

text \<open>
  A source file \<open>src/n\<close> whose name is that of an empty directory \<open>out/n\<close> of the
  destination.
\<close>

definition dir_target_fs :: filesystem where
  "dir_target_fs = map_of
     [([], Dir [''src'', ''out'']),
      ([''src''], Dir [''n'']),
      ([''src'', ''n''], File rw [1, 2, 3]),
      ([''out''], Dir [''n'']),
      ([''out'', ''n''], Dir [])]"

definition dir_target_state :: state where
  "dir_target_state = \<lparr>fs = dir_target_fs, out = [], trace = []\<rparr>"

declare flatten_dir.simps [simp del]

section \<open>Lemmas\<close>

declare planned_files.simps [simp del] files_within.simps [simp del]

lemma name_snoc [simp]: "name (d @ [n]) = n"
  by (simp add: name_def)

lemma is_file_not_dir: "is_file s p \<Longrightarrow> \<not> is_dir s p"
  by (auto simp: is_file_def is_dir_def split: option.splits node.splits)

lemma flatten_loop_file:
  assumes "is_file s path"
  shows "flatten_loop (path # rest) outdir r v ow (n_files, n_bytes) s =
     (case file_step outdir v ow path s of
        (Inl e, s') \<Rightarrow> (Inl e, s')
      | (Inr (df, db), s') \<Rightarrow> flatten_loop rest outdir r v ow (n_files + df, n_bytes + db) s')"
  using assms is_file_not_dir [OF assms]
  by (simp add: file_step_def Let_def split: sum.splits prod.splits)

lemma flatten_loop_other:
  "\<not> is_dir s path \<Longrightarrow> \<not> is_file s path \<Longrightarrow>
   flatten_loop (path # rest) outdir r v ow (n_files, n_bytes) s =
   flatten_loop rest outdir r v ow (n_files, n_bytes) s"
  by simp

lemma flatten_loop_dir:
  "is_dir s path \<Longrightarrow>
   flatten_loop (path # rest) outdir r v ow (n_files, n_bytes) s =
     (case flatten_dir path outdir (r - 1) v ow s of
        (Inl e, s') \<Rightarrow> (Inl e, s')
      | (Inr (sub_files, sub_bytes), s') \<Rightarrow>
          flatten_loop rest outdir r v ow (n_files + sub_files, n_bytes + sub_bytes) s')"
  by simp

declare flatten_loop.simps(2) [simp del]

lemma flatten_induct [case_names dir nil entry]:
  assumes dir: "\<And>indir outdir r v ow s.
      (\<And>ps. \<not> (r < 0 \<or> indir = outdir) \<Longrightarrow> iterdir s indir = Inr ps \<Longrightarrow>
         Q ps outdir r v ow (0, 0) s) \<Longrightarrow> P indir outdir r v ow s"
    and nil: "\<And>outdir r v ow nf nb s. Q [] outdir r v ow (nf, nb) s"
    and entry: "\<And>p rest outdir r v ow nf nb s.
      (is_dir s p \<Longrightarrow> P p outdir (r - 1) v ow s) \<Longrightarrow>
      (\<And>sf sb s'. is_dir s p \<Longrightarrow> flatten_dir p outdir (r - 1) v ow s = (Inr (sf, sb), s') \<Longrightarrow>
         Q rest outdir r v ow (nf + sf, nb + sb) s') \<Longrightarrow>
      (\<And>df db s'. is_file s p \<Longrightarrow> file_step outdir v ow p s = (Inr (df, db), s') \<Longrightarrow>
         Q rest outdir r v ow (nf + df, nb + db) s') \<Longrightarrow>
      (\<not> is_dir s p \<Longrightarrow> \<not> is_file s p \<Longrightarrow> Q rest outdir r v ow (nf, nb) s) \<Longrightarrow>
      Q (p # rest) outdir r v ow (nf, nb) s"
  shows "P indir outdir r v ow s" and "Q ps outdir r v ow acc s"
proof (induction indir outdir r v ow s and ps outdir r v ow acc s
    rule: flatten_dir_flatten_loop.induct)
  case (1 indir outdir recursions_left verbose overwrite s)
  then show ?case by (intro dir) simp
next
  case (2 outdir recursions_left verbose overwrite n_files n_bytes s)
  show ?case by (rule nil)
next
  case (3 path rest outdir recursions_left verbose overwrite n_files n_bytes s)
  show ?case
  proof (rule entry)
    assume "is_dir s path"
    then show "P path outdir (recursions_left - 1) verbose overwrite s" by (rule 3)
  next
    fix sf sb s'
    assume "is_dir s path"
      "flatten_dir path outdir (recursions_left - 1) verbose overwrite s = (Inr (sf, sb), s')"
    then show "Q rest outdir recursions_left verbose overwrite (n_files + sf, n_bytes + sb) s'"
      using "3.IH"(2) [of "Inr (sf, sb)" s' "(sf, sb)" sf sb] by simp
  next
    fix df db s'
    assume f: "is_file s path" and st: "file_step outdir verbose overwrite path s = (Inr (df, db), s')"
    note nd = is_file_not_dir [OF f]
    show "Q rest outdir recursions_left verbose overwrite (n_files + df, n_bytes + db) s'"
    proof (cases "exists_path s (outdir @ [name path]) \<and> \<not> overwrite")
      case True
      with st have "df = 0" "db = 0" "s' = s\<lparr>trace := trace s @ [Skipped path]\<rparr>"
        by (auto simp: file_step_def Let_def)
      with "3.IH"(3) [OF nd f refl True] show ?thesis by simp
    next
      case False
      define s1 where "s1 = (if verbose then s\<lparr>out := out s @ [outdir @ [name path]]\<rparr> else s)"
      from st False obtain dst bs f' where
        c: "shutil_copy (fs s1) path (outdir @ [name path]) = Inr (dst, bs, f')"
        by (auto simp: file_step_def Let_def s1_def split: sum.splits)
      define s2 where "s2 = s1\<lparr>fs := f', trace := trace s1 @ [Copied path dst bs]\<rparr>"
      from st False c have sz: "st_size s2 path = Inr db" and "df = 1" "s' = s2"
        by (auto simp: file_step_def Let_def s1_def s2_def split: sum.splits)
      with "3.IH"(4) [OF nd f refl False s1_def c refl refl s2_def sz] show ?thesis by simp
    qed
  next
    assume "\<not> is_dir s path" "\<not> is_file s path"
    then show "Q rest outdir recursions_left verbose overwrite (n_files, n_bytes) s"
      by (rule 3)
  qed
qed

subsection \<open>One copy\<close>

lemma shutil_copy_Inr:
  assumes "shutil_copy f src dst = Inr (d', bs, f')"
  shows "\<exists>w. f src = Some (File (Mode True w) bs)"
    and "f' = write_file f d' (mode (the (f src))) bs" and "d' \<noteq> src"
    and "(case f dst of Some (Dir ns) \<Rightarrow> d' = dst @ [name src] | _ \<Rightarrow> d' = dst)"
    and "(case f d' of Some (Dir ns) \<Rightarrow> False | _ \<Rightarrow> True)"
    and "\<forall>m' bs'. f d' = Some (File m' bs') \<longrightarrow> writable m'"
proof -
  from assms obtain m where m: "f src = Some (File m bs)" "readable m"
    by (auto simp: shutil_copy_def Let_def split: option.splits node.splits if_splits)
  then show "\<exists>w. f src = Some (File (Mode True w) bs)" by (cases m) auto
  show "f' = write_file f d' (mode (the (f src))) bs" and "d' \<noteq> src"
    and "(case f dst of Some (Dir ns) \<Rightarrow> d' = dst @ [name src] | _ \<Rightarrow> d' = dst)"
    and "(case f d' of Some (Dir ns) \<Rightarrow> False | _ \<Rightarrow> True)"
    and "\<forall>m' bs'. f d' = Some (File m' bs') \<longrightarrow> writable m'"
    using assms
    by (auto simp: shutil_copy_def Let_def split: option.splits node.splits if_splits)
qed

text \<open>A target that is there and may not be written makes the copy fail.\<close>

lemma shutil_copy_unwritable:
  "f src = Some (File m bs) \<Longrightarrow> readable m \<Longrightarrow> f dst = Some (File m' bs') \<Longrightarrow>
   \<not> writable m' \<Longrightarrow> src \<noteq> dst \<Longrightarrow> shutil_copy f src dst = Inl PermissionError"
  by (simp add: shutil_copy_def)

lemma write_file_other:
  "q \<noteq> dst \<Longrightarrow> q \<noteq> butlast dst \<Longrightarrow> write_file f dst m bs q = f q"
  by (auto simp: write_file_def split: option.splits node.splits)

lemma write_file_same: "write_file f dst m bs dst = Some (File m bs)"
  by (auto simp: write_file_def split: option.splits node.splits)

lemma write_file_parent:
  "butlast dst \<noteq> dst \<Longrightarrow> write_file f dst m bs (butlast dst) =
     (case f (butlast dst) of
        Some (Dir ns) \<Rightarrow> Some (Dir (if last dst \<in> set ns then ns else ns @ [last dst]))
      | x \<Rightarrow> x)"
  by (auto simp: write_file_def split: option.splits node.splits)

lemma write_file_file:
  "f q = Some (File rd bs') \<Longrightarrow> q \<noteq> dst \<Longrightarrow> write_file f dst m bs q = f q"
  by (auto simp: write_file_def split: option.splits node.splits)

text \<open>
  The copy has the mode of the source. So the copy of a file that may not be written may
  not be written either, and copying the file there once more fails.
\<close>

lemma shutil_copy_read_only_twice:
  assumes c: "shutil_copy f src dst = Inr (d', bs, f')"
    and ro: "\<not> writable (mode (the (f src)))"
  shows "shutil_copy f' src dst = Inl PermissionError"
proof -
  note k = shutil_copy_Inr [OF c]
  from k(1) obtain w where w: "f src = Some (File (Mode True w) bs)" by blast
  with ro have w': "f src = Some (File (Mode True False) bs)" by simp
  with k(2) have f': "f' = write_file f d' (Mode True False) bs" by simp
  have src: "f' src = Some (File (Mode True False) bs)"
    using w' k(3) by (simp add: f' write_file_file)
  have tgt: "f' d' = Some (File (Mode True False) bs)"
    by (simp add: f' write_file_same)
  show ?thesis
  proof (cases "\<exists>ns. f dst = Some (Dir ns)")
    case True
    then obtain ns where ns: "f dst = Some (Dir ns)" by blast
    with k(4) have d': "d' = dst @ [name src]" by simp
    then have "butlast d' = dst" "dst \<noteq> d'" by simp_all
    with ns have "\<exists>ns'. f' dst = Some (Dir ns')"
      using write_file_parent [of d' f "Mode True False" bs] by (auto simp: f')
    with src tgt k(3) d' show ?thesis by (auto simp: shutil_copy_def)
  next
    case False
    with k(4) have d': "d' = dst" by (auto split: option.splits node.splits)
    with src tgt k(3) show ?thesis by (auto simp: shutil_copy_def)
  qed
qed

text \<open>What a step that does not fail has done.\<close>

lemma file_step_Inr:
  assumes "file_step outdir v ow p s = (Inr (df, db), s')"
  obtains (skip) "exists_path s (outdir @ [name p])" "\<not> ow" "df = 0" "db = 0"
      "s' = s\<lparr>trace := trace s @ [Skipped p]\<rparr>"
    | (copy) dst bs m where "\<not> (exists_path s (outdir @ [name p]) \<and> \<not> ow)"
      "shutil_copy (fs s) p (outdir @ [name p]) = Inr (dst, bs, write_file (fs s) dst m bs)"
      "df = 1" "db = int (length bs)"
      "s' = s\<lparr>fs := write_file (fs s) dst m bs,
               out := out s @ (if v then [outdir @ [name p]] else []),
               trace := trace s @ [Copied p dst bs]\<rparr>"
      "fs s p = Some (File m bs)" "readable m"
proof (cases "exists_path s (outdir @ [name p]) \<and> \<not> ow")
  case True
  with assms show ?thesis by (intro skip) (auto simp: file_step_def Let_def)
next
  case False
  define s1 where "s1 = (if v then s\<lparr>out := out s @ [outdir @ [name p]]\<rparr> else s)"
  have fs1: "fs s1 = fs s" by (simp add: s1_def)
  from assms False obtain dst bs f' where
    c: "shutil_copy (fs s) p (outdir @ [name p]) = Inr (dst, bs, f')"
    by (auto simp: file_step_def Let_def split: sum.splits if_splits)
  note k = shutil_copy_Inr [OF c]
  from k(1) obtain w where w: "fs s p = Some (File (Mode True w) bs)" by blast
  then have k2: "f' = write_file (fs s) dst (Mode True w) bs" using k(2) by simp
  have "f' p = Some (File (Mode True w) bs)"
    using w k(3) by (simp add: k2 write_file_file)
  then have sz: "st_size (s1\<lparr>fs := f', trace := trace s1 @ [Copied p dst bs]\<rparr>) p = Inr (int (length bs))"
    by (simp add: st_size_def)
  show ?thesis
  proof (rule copy [of dst bs "Mode True w"])
    show "\<not> (exists_path s (outdir @ [name p]) \<and> \<not> ow)" by (rule False)
    show "shutil_copy (fs s) p (outdir @ [name p]) = Inr (dst, bs, write_file (fs s) dst (Mode True w) bs)"
      using c k2 by simp
    show "df = 1" "db = int (length bs)"
      "s' = s\<lparr>fs := write_file (fs s) dst (Mode True w) bs,
               out := out s @ (if v then [outdir @ [name p]] else []),
               trace := trace s @ [Copied p dst bs]\<rparr>"
      using assms False c sz k2
      by (auto simp: file_step_def Let_def s1_def split: if_splits)
    show "fs s p = Some (File (Mode True w) bs)" by (rule w)
    show "readable (Mode True w)" by simp
  qed
qed

lemma file_step_Inl:
  assumes "file_step outdir v ow p s = (Inl e, s')"
  shows "\<not> (exists_path s (outdir @ [name p]) \<and> \<not> ow)"
    and "shutil_copy (fs s) p (outdir @ [name p]) = Inl e"
    and "s' = s\<lparr>out := out s @ (if v then [outdir @ [name p]] else []),
               trace := trace s @ [Failed p e]\<rparr>"
proof -
  show n: "\<not> (exists_path s (outdir @ [name p]) \<and> \<not> ow)"
    using assms by (auto simp: file_step_def Let_def split: if_splits)
  define s1 where "s1 = (if v then s\<lparr>out := out s @ [outdir @ [name p]]\<rparr> else s)"
  have fs1: "fs s1 = fs s" by (simp add: s1_def)
  show c: "shutil_copy (fs s) p (outdir @ [name p]) = Inl e"
  proof (cases "shutil_copy (fs s) p (outdir @ [name p])")
    case (Inl e')
    with assms n show ?thesis by (auto simp: file_step_def Let_def split: if_splits)
  next
    case (Inr x)
    obtain dst bs f' where x: "x = (dst, bs, f')" by (cases x) auto
    note k = shutil_copy_Inr [OF Inr [unfolded x]]
    from k(1) obtain w where w: "fs s p = Some (File (Mode True w) bs)" by blast
    have "f' p = Some (File (Mode True w) bs)"
      using w k(3) by (simp add: k(2) write_file_file)
    then have "st_size (s1\<lparr>fs := f', trace := trace s1 @ [Copied p dst bs]\<rparr>) p = Inr (int (length bs))"
      by (simp add: st_size_def)
    with assms n Inr x show ?thesis
      by (auto simp: file_step_def Let_def s1_def split: if_splits)
  qed
  show "s' = s\<lparr>out := out s @ (if v then [outdir @ [name p]] else []),
               trace := trace s @ [Failed p e]\<rparr>"
    using assms n c by (auto simp: file_step_def Let_def split: if_splits)
qed

subsection \<open>How the file system changes\<close>

lemma grows_refl: "grows outdir f f"
  by (auto simp: grows_def)

lemma grows_None:
  "grows outdir f f' \<Longrightarrow> f q = None \<Longrightarrow> f' q = None \<or> (\<exists>rd bs. f' q = Some (File rd bs))"
  unfolding grows_def by (cases "f' q"; cases "the (f' q)") auto

lemma grows_File:
  "grows outdir f f' \<Longrightarrow> f q = Some (File rd bs) \<Longrightarrow> \<exists>rd' bs'. f' q = Some (File rd' bs')"
  unfolding grows_def by blast

lemma grows_Dir:
  "grows outdir f f' \<Longrightarrow> f q = Some (Dir ns) \<Longrightarrow>
   \<exists>ns'. f' q = Some (Dir ns') \<and> set ns \<subseteq> set ns' \<and>
     (ns' = ns \<or> q = outdir \<or> (q \<noteq> [] \<and> butlast q = outdir))"
  unfolding grows_def by blast

lemma grows_trans:
  assumes fg: "grows outdir f g" and gh: "grows outdir g h"
  shows "grows outdir f h"
  unfolding grows_def
proof (intro allI conjI impI)
  fix q ns'
  assume "f q = None"
  from grows_None [OF fg this] show "h q \<noteq> Some (Dir ns')"
    using grows_None [OF gh, of q] grows_File [OF gh, of q] by auto
next
  fix q rd bs
  assume "f q = Some (File rd bs)"
  from grows_File [OF fg this] show "\<exists>rd' bs'. h q = Some (File rd' bs')"
    using grows_File [OF gh, of q] by auto
next
  fix q ns
  assume "f q = Some (Dir ns)"
  from grows_Dir [OF fg this] obtain ms where
    ms: "g q = Some (Dir ms)" "set ns \<subseteq> set ms" "ms = ns \<or> q = outdir \<or> (q \<noteq> [] \<and> butlast q = outdir)"
    by auto
  from grows_Dir [OF gh ms(1)] obtain ks where
    ks: "h q = Some (Dir ks)" "set ms \<subseteq> set ks" "ks = ms \<or> q = outdir \<or> (q \<noteq> [] \<and> butlast q = outdir)"
    by auto
  from ms ks show "\<exists>ns'. h q = Some (Dir ns') \<and> set ns \<subseteq> set ns' \<and>
      (ns' = ns \<or> q = outdir \<or> (q \<noteq> [] \<and> butlast q = outdir))"
    by auto
qed

lemma grows_is_dir: "grows outdir (fs s) (fs s') \<Longrightarrow> is_dir s d \<Longrightarrow> is_dir s' d"
  by (auto simp: is_dir_def split: option.splits node.splits dest: grows_Dir)

lemma grows_is_file: "grows outdir (fs s) (fs s') \<Longrightarrow> is_file s d \<Longrightarrow> is_file s' d"
  by (auto simp: is_file_def split: option.splits node.splits dest: grows_File)

lemma grows_exists: "grows outdir f f' \<Longrightarrow> f q \<noteq> None \<Longrightarrow> f' q \<noteq> None"
proof -
  assume g: "grows outdir f f'" and "f q \<noteq> None"
  then obtain c where c: "f q = Some c" by auto
  show ?thesis using grows_File [OF g, of q] grows_Dir [OF g, of q] c by (cases c) auto
qed

lemma grows_write:
  assumes nd: "\<forall>ns. f dst \<noteq> Some (Dir ns)"
    and ne: "dst \<noteq> []"
    and par: "butlast dst = outdir \<or> (butlast dst \<noteq> [] \<and> butlast (butlast dst) = outdir)"
  shows "grows outdir f (write_file f dst m bs)"
  unfolding grows_def
proof
  fix q
  have bl: "butlast dst \<noteq> dst" using ne by (metis append_butlast_last_id append_self_conv not_Cons_self2)
  consider "q = dst" | "q = butlast dst" "q \<noteq> dst" | "q \<noteq> dst" "q \<noteq> butlast dst" by blast
  then show "(f q = None \<longrightarrow> (\<forall>ns'. write_file f dst m bs q \<noteq> Some (Dir ns'))) \<and>
          (\<forall>rd bs'. f q = Some (File rd bs') \<longrightarrow> (\<exists>rd' bs''. write_file f dst m bs q = Some (File rd' bs''))) \<and>
          (\<forall>ns. f q = Some (Dir ns) \<longrightarrow>
             (\<exists>ns'. write_file f dst m bs q = Some (Dir ns') \<and> set ns \<subseteq> set ns' \<and>
                (ns' = ns \<or> q = outdir \<or> (q \<noteq> [] \<and> butlast q = outdir))))"
  proof cases
    case 1
    with nd show ?thesis by (auto simp: write_file_same)
  next
    case 2
    with par bl show ?thesis by (auto simp: write_file_parent)
  next
    case 3
    then show ?thesis by (auto simp: write_file_other)
  qed
qed

lemma shutil_copy_grows:
  assumes "shutil_copy f p (outdir @ [n]) = Inr (dst, bs, f')"
  shows "grows outdir f f'"
proof -
  note k = shutil_copy_Inr [OF assms]
  have "dst = outdir @ [n] \<or> dst = outdir @ [n] @ [name p]"
    using k(4) by (auto split: option.splits node.splits)
  then have "dst \<noteq> []" and "butlast dst = outdir \<or> (butlast dst \<noteq> [] \<and> butlast (butlast dst) = outdir)"
    by (auto simp: butlast_append)
  moreover have "\<forall>ns. f dst \<noteq> Some (Dir ns)" using k(5) by auto
  ultimately show ?thesis unfolding k(2) by (intro grows_write)
qed

lemma file_step_grows:
  "file_step outdir v ow p s = (x, s') \<Longrightarrow> grows outdir (fs s) (fs s')"
proof (cases x)
  case (Inl e)
  assume "file_step outdir v ow p s = (x, s')"
  from file_step_Inl(3) [OF this [unfolded Inl]] show ?thesis by (simp add: grows_refl)
next
  case (Inr c)
  assume a: "file_step outdir v ow p s = (x, s')"
  obtain df db where c: "c = (df, db)" by (cases c) auto
  from a [unfolded Inr c] show ?thesis
  proof (cases rule: file_step_Inr)
    case skip
    then show ?thesis by (simp add: grows_refl)
  next
    case (copy dst bs m)
    from shutil_copy_grows [OF copy(2)] copy(5) show ?thesis by simp
  qed
qed

subsection \<open>Well-formed file systems stay well formed\<close>

lemma wf_write:
  assumes wf: "wf_fs f" and ne: "dst \<noteq> []"
  shows "wf_fs (write_file f dst m bs)"
  unfolding wf_fs_def
proof (intro allI impI)
  fix d ns
  assume d: "write_file f dst m bs d = Some (Dir ns)"
  have bl: "butlast dst \<noteq> dst" using ne by (metis append_butlast_last_id append_self_conv not_Cons_self2)
  have dd: "d \<noteq> dst" using d by (auto simp: write_file_same)
  have ex: "write_file f dst m bs q \<noteq> None" if "f q \<noteq> None" for q
    using that bl
    by (cases "q = dst"; cases "q = butlast dst")
      (auto simp: write_file_same write_file_parent write_file_other split: option.splits node.splits)
  show "distinct ns \<and> (\<forall>n\<in>set ns. write_file f dst m bs (d @ [n]) \<noteq> None)"
  proof (cases "d = butlast dst")
    case True
    with d bl obtain ms where ms: "f d = Some (Dir ms)"
      and ns: "ns = (if last dst \<in> set ms then ms else ms @ [last dst])"
      by (auto simp: write_file_parent split: option.splits node.splits)
    from wf ms have dm: "distinct ms" and em: "\<forall>n\<in>set ms. f (d @ [n]) \<noteq> None"
      by (auto simp: wf_fs_def)
    have "write_file f dst m bs (d @ [last dst]) \<noteq> None"
      using True ne by (simp add: write_file_same)
    with dm em ns ex show ?thesis by auto
  next
    case False
    with d dd have "f d = Some (Dir ns)" by (simp add: write_file_other)
    with wf ex show ?thesis by (auto simp: wf_fs_def)
  qed
qed

lemma file_step_wf:
  assumes "file_step outdir v ow p s = (x, s')" and "wf_fs (fs s)"
  shows "wf_fs (fs s')"
proof (cases x)
  case (Inl e)
  from file_step_Inl(3) [OF assms(1) [unfolded Inl]] assms(2) show ?thesis by simp
next
  case (Inr c)
  obtain df db where c: "c = (df, db)" by (cases c) auto
  from assms(1) [unfolded Inr c] show ?thesis
  proof (cases rule: file_step_Inr)
    case skip
    then show ?thesis using assms(2) by simp
  next
    case (copy dst bs m)
    have "dst \<noteq> []"
      using shutil_copy_Inr(4) [OF copy(2)] by (auto split: option.splits node.splits)
    with copy(5) assms(2) show ?thesis by (simp add: wf_write)
  qed
qed

subsection \<open>Runs over a list of files\<close>

lemma run_files_acc:
  "run_files ps outdir v ow (a + c, b + d) s =
     (case run_files ps outdir v ow (c, d) s of
        (Inl e, s') \<Rightarrow> (Inl e, s')
      | (Inr (x, y), s') \<Rightarrow> (Inr (a + x, b + y), s'))"
proof (induction ps arbitrary: c d s)
  case Nil
  show ?case by simp
next
  case (Cons p ps)
  show ?case
  proof (cases "file_step outdir v ow p s")
    case (Pair x s1)
    show ?thesis
    proof (cases x)
      case (Inl e)
      with Pair show ?thesis by simp
    next
      case (Inr inc)
      obtain df db where "inc = (df, db)" by (cases inc) auto
      with Pair Inr Cons.IH [of "c + df" "d + db" s1] show ?thesis
        by (simp add: add.assoc)
    qed
  qed
qed

lemma run_files_acc0:
  "run_files ps outdir v ow (a, b) s =
     (case run_files ps outdir v ow (0, 0) s of
        (Inl e, s') \<Rightarrow> (Inl e, s')
      | (Inr (x, y), s') \<Rightarrow> (Inr (a + x, b + y), s'))"
  using run_files_acc [of ps outdir v ow a 0 b 0 s] by simp

lemma run_files_append:
  "run_files (ps @ qs) outdir v ow (a, b) s =
     (case run_files ps outdir v ow (a, b) s of
        (Inl e, s') \<Rightarrow> (Inl e, s')
      | (Inr (x, y), s') \<Rightarrow> run_files qs outdir v ow (x, y) s')"
proof (induction ps arbitrary: a b s)
  case Nil
  show ?case by simp
next
  case (Cons p ps)
  then show ?case by (auto split: prod.splits sum.splits)
qed

lemma run_files_grows:
  "run_files ps outdir v ow acc s = (x, s') \<Longrightarrow> grows outdir (fs s) (fs s')"
proof (induction ps arbitrary: acc s)
  case Nil
  then show ?case by (cases acc) (auto simp: grows_refl)
next
  case (Cons p ps)
  obtain a b where acc: "acc = (a, b)" by (cases acc) auto
  obtain y s1 where st: "file_step outdir v ow p s = (y, s1)" by (cases "file_step outdir v ow p s") auto
  note g1 = file_step_grows [OF st]
  show ?case
  proof (cases y)
    case (Inl e)
    with Cons.prems st acc g1 show ?thesis by simp
  next
    case (Inr inc)
    obtain df db where "inc = (df, db)" by (cases inc) auto
    with Cons.prems st acc Inr have "run_files ps outdir v ow (a + df, b + db) s1 = (x, s')" by simp
    from grows_trans [OF g1 Cons.IH [OF this]] show ?thesis .
  qed
qed

lemma run_files_wf:
  "run_files ps outdir v ow acc s = (x, s') \<Longrightarrow> wf_fs (fs s) \<Longrightarrow> wf_fs (fs s')"
proof (induction ps arbitrary: acc s)
  case Nil
  then show ?case by (cases acc) auto
next
  case (Cons p ps)
  obtain a b where acc: "acc = (a, b)" by (cases acc) auto
  obtain y s1 where st: "file_step outdir v ow p s = (y, s1)" by (cases "file_step outdir v ow p s") auto
  note w1 = file_step_wf [OF st Cons.prems(2)]
  show ?case
  proof (cases y)
    case (Inl e)
    with Cons.prems st acc w1 show ?thesis by simp
  next
    case (Inr inc)
    obtain df db where "inc = (df, db)" by (cases inc) auto
    with Cons.prems st acc Inr have "run_files ps outdir v ow (a + df, b + db) s1 = (x, s')" by simp
    from Cons.IH [OF this w1] show ?thesis .
  qed
qed

subsection \<open>The plan does not change while the traversal runs\<close>

lemma planned_files_unfold:
  "planned_files f outdir d r =
     (if r < 0 \<or> d = outdir then []
      else case f d of
        Some (Dir ns) \<Rightarrow> concat (map (planned_entry f outdir r) (map (\<lambda>n. d @ [n]) ns))
      | _ \<Rightarrow> [])"
  by (subst planned_files.simps)
    (auto simp: planned_entry_def comp_def split: option.splits node.splits intro!: arg_cong [where f = concat])

lemma planned_files_grows:
  "wf_fs f \<Longrightarrow> grows outdir f f' \<Longrightarrow> \<not> (d \<noteq> [] \<and> butlast d = outdir) \<Longrightarrow>
   planned_files f' outdir d r = planned_files f outdir d r"
proof (induction f outdir d r rule: planned_files.induct)
  case (1 f outdir d r)
  note wf = \<open>wf_fs f\<close> and g = \<open>grows outdir f f'\<close>
  show ?case
  proof (cases "r < 0 \<or> d = outdir")
    case True
    then show ?thesis by (simp add: planned_files.simps)
  next
    case False
    show ?thesis
    proof (cases "f d")
      case None
      from grows_None [OF g None] None False show ?thesis
        by (auto simp: planned_files_unfold [of _ _ d])
    next
      case (Some nd)
      show ?thesis
      proof (cases nd)
        case (File rd bs)
        from grows_File [OF g Some [unfolded File]] Some File False show ?thesis
          by (auto simp: planned_files_unfold [of _ _ d])
      next
        case (Dir ns)
        from grows_Dir [OF g Some [unfolded Dir]] False "1.prems"(3)
        have f'd: "f' d = Some (Dir ns)" by auto
        have "planned_entry f' outdir r (d @ [n]) = planned_entry f outdir r (d @ [n])"
          if n: "n \<in> set ns" for n
        proof -
          from wf Some Dir n have ex: "f (d @ [n]) \<noteq> None" by (auto simp: wf_fs_def)
          then obtain c where c: "f (d @ [n]) = Some c" by auto
          show ?thesis
          proof (cases c)
            case (File rd bs)
            from grows_File [OF g c [unfolded File]] c File show ?thesis
              by (auto simp: planned_entry_def)
          next
            case (Dir ms)
            have "planned_files f' outdir (d @ [n]) (r - 1) = planned_files f outdir (d @ [n]) (r - 1)"
              using "1.IH" [OF False Some \<open>nd = Dir ns\<close> n c Dir wf g] False by simp
            with grows_Dir [OF g c [unfolded Dir]] c Dir show ?thesis
              by (auto simp: planned_entry_def)
          qed
        qed
        then show ?thesis
          using False Some Dir f'd by (simp add: planned_files_unfold [of _ _ d] cong: map_cong)
      qed
    qed
  qed
qed

lemma planned_entry_grows:
  assumes "wf_fs f" and "grows outdir f f'" and "butlast p \<noteq> outdir" and "f p \<noteq> None"
  shows "planned_entry f' outdir r p = planned_entry f outdir r p"
proof -
  from assms(4) obtain c where c: "f p = Some c" by auto
  show ?thesis
  proof (cases c)
    case (File rd bs)
    from grows_File [OF assms(2) c [unfolded File]] c File show ?thesis
      by (auto simp: planned_entry_def)
  next
    case (Dir ms)
    have "planned_files f' outdir p (r - 1) = planned_files f outdir p (r - 1)"
      using assms(1,2,3) by (intro planned_files_grows) auto
    with grows_Dir [OF assms(2) c [unfolded Dir]] c Dir show ?thesis
      by (auto simp: planned_entry_def)
  qed
qed

subsection \<open>The traversal runs its plan\<close>

lemma iterdir_is_dir:
  "is_dir s d \<Longrightarrow> \<exists>ns. fs s d = Some (Dir ns) \<and> iterdir s d = Inr (map (\<lambda>n. d @ [n]) ns)"
  by (auto simp: is_dir_def iterdir_def split: option.splits node.splits)

lemma flatten_eq_run_files:
  "wf_fs (fs s) \<Longrightarrow> is_dir s indir \<Longrightarrow>
     flatten_dir indir outdir r v ow s =
     run_files (planned_files (fs s) outdir indir r) outdir v ow (0, 0) s"
  "wf_fs (fs s) \<Longrightarrow> (\<forall>p \<in> set ps. butlast p \<noteq> outdir \<and> fs s p \<noteq> None) \<Longrightarrow>
     flatten_loop ps outdir r v ow acc s =
     run_files (concat (map (planned_entry (fs s) outdir r) ps)) outdir v ow acc s"
proof (induction indir outdir r v ow s and ps outdir r v ow acc s rule: flatten_induct)
  case (dir indir outdir r v ow s)
  show ?case
  proof (cases "r < 0 \<or> indir = outdir")
    case True
    then show ?thesis by (simp add: flatten_dir.simps planned_files.simps)
  next
    case False
    from iterdir_is_dir [OF dir.prems(2)] obtain ns where
      ns: "fs s indir = Some (Dir ns)" "iterdir s indir = Inr (map (\<lambda>n. indir @ [n]) ns)" by auto
    have "\<forall>p \<in> set (map (\<lambda>n. indir @ [n]) ns). butlast p \<noteq> outdir \<and> fs s p \<noteq> None"
      using False dir.prems(1) ns(1) by (auto simp: wf_fs_def)
    from dir.IH [OF False ns(2) dir.prems(1) this] False ns show ?thesis
      by (simp add: flatten_dir.simps planned_files_unfold [of _ _ indir])
  qed
next
  case (nil outdir r v ow nf nb s)
  show ?case by simp
next
  case (entry p rest outdir r v ow nf nb s)
  note wf = entry.prems(1)
  from entry.prems(2) have pb: "butlast p \<noteq> outdir" and pe: "fs s p \<noteq> None"
    and rest: "\<forall>q \<in> set rest. butlast q \<noteq> outdir \<and> fs s q \<noteq> None" by auto
  have stable: "concat (map (planned_entry (fs s1) outdir r) rest) =
      concat (map (planned_entry (fs s) outdir r) rest)"
    if "grows outdir (fs s) (fs s1)" for s1
    using rest planned_entry_grows [OF wf that]
    by (intro arg_cong [where f = concat] map_cong) auto
  have rest': "\<forall>q \<in> set rest. butlast q \<noteq> outdir \<and> fs s1 q \<noteq> None"
    if "grows outdir (fs s) (fs s1)" for s1
    using rest grows_exists [OF that] by auto
  from pe obtain c where "fs s p = Some c" by auto
  then consider (d) "is_dir s p" | (f) "is_file s p"
    by (cases c) (auto simp: is_dir_def is_file_def)
  then show ?case
  proof cases
    case d
    then have pl: "planned_entry (fs s) outdir r p = planned_files (fs s) outdir p (r - 1)"
      by (auto simp: planned_entry_def is_dir_def split: option.splits node.splits)
    note sub = entry.IH(1) [OF d wf d]
    obtain x s1 where run: "run_files (planned_files (fs s) outdir p (r - 1)) outdir v ow (0, 0) s = (x, s1)"
      by (cases "run_files (planned_files (fs s) outdir p (r - 1)) outdir v ow (0, 0) s") auto
    note g = run_files_grows [OF run] and w = run_files_wf [OF run wf]
    show ?thesis
    proof (cases x)
      case (Inl e)
      from run Inl have "run_files (planned_files (fs s) outdir p (r - 1)) outdir v ow (nf, nb) s = (Inl e, s1)"
        by (simp add: run_files_acc0 [of "planned_files (fs s) outdir p (r - 1)" outdir v ow nf nb s])
      with run sub Inl d pl show ?thesis
        by (simp add: run_files_append flatten_loop_dir)
    next
      case (Inr c)
      obtain sf sb where c: "c = (sf, sb)" by (cases c) auto
      from sub run Inr c have fd: "flatten_dir p outdir (r - 1) v ow s = (Inr (sf, sb), s1)" by simp
      from run Inr c
      have A: "run_files (planned_files (fs s) outdir p (r - 1)) outdir v ow (nf, nb) s = (Inr (nf + sf, nb + sb), s1)"
        by (simp add: run_files_acc0 [of "planned_files (fs s) outdir p (r - 1)" outdir v ow nf nb s])
      from entry.IH(2) [OF d fd w rest' [OF g]] stable [OF g]
      have "flatten_loop rest outdir r v ow (nf + sf, nb + sb) s1 =
          run_files (concat (map (planned_entry (fs s) outdir r) rest)) outdir v ow (nf + sf, nb + sb) s1"
        by simp
      with fd A d pl show ?thesis
        by (simp add: run_files_append flatten_loop_dir)
    qed
  next
    case f
    then have pl: "planned_entry (fs s) outdir r p = [p]"
      by (auto simp: planned_entry_def is_file_def split: option.splits node.splits)
    obtain x s1 where st: "file_step outdir v ow p s = (x, s1)"
      by (cases "file_step outdir v ow p s") auto
    note g = file_step_grows [OF st] and w = file_step_wf [OF st wf]
    show ?thesis
    proof (cases x)
      case (Inl e)
      with st f pl show ?thesis by (simp add: flatten_loop_file)
    next
      case (Inr c)
      obtain df db where c: "c = (df, db)" by (cases c) auto
      from entry.IH(3) [OF f st [unfolded Inr c] w rest' [OF g]] stable [OF g]
      have "flatten_loop rest outdir r v ow (nf + df, nb + db) s1 =
          run_files (concat (map (planned_entry (fs s) outdir r) rest)) outdir v ow (nf + df, nb + db) s1"
        by simp
      with st Inr c f pl show ?thesis by (simp add: flatten_loop_file)
    qed
  qed
qed

subsection \<open>Every traversal is a run over some list of files\<close>

lemma grows_is_dir_back: "grows outdir (fs s) (fs s') \<Longrightarrow> is_dir s' d \<Longrightarrow> is_dir s d"
proof -
  assume g: "grows outdir (fs s) (fs s')" and d: "is_dir s' d"
  show ?thesis
  proof (cases "fs s d")
    case None
    from grows_None [OF g None] d show ?thesis by (auto simp: is_dir_def)
  next
    case (Some c)
    then show ?thesis using grows_File [OF g, of d] d by (cases c) (auto simp: is_dir_def)
  qed
qed

lemma flatten_is_run:
  "is_dir s indir \<Longrightarrow>
     \<exists>L. flatten_dir indir outdir r v ow s = run_files L outdir v ow (0, 0) s \<and>
       (\<forall>q \<in> set L. strict_prefix indir q \<and> butlast q \<noteq> outdir \<and> is_dir s (butlast q) \<and>
          (prefix indir outdir \<longrightarrow> \<not> strict_prefix outdir q))"
  "(\<forall>p \<in> set ps. p \<noteq> [] \<and> butlast p \<noteq> outdir \<and> is_dir s (butlast p)) \<Longrightarrow>
     \<exists>L. flatten_loop ps outdir r v ow acc s = run_files L outdir v ow acc s \<and>
       (\<forall>q \<in> set L. (\<exists>p \<in> set ps. prefix p q \<and> (prefix p outdir \<longrightarrow> \<not> strict_prefix outdir q)) \<and>
          q \<noteq> [] \<and> butlast q \<noteq> outdir \<and> is_dir s (butlast q))"
proof (induction indir outdir r v ow s and ps outdir r v ow acc s rule: flatten_induct)
  case (dir indir outdir r v ow s)
  show ?case
  proof (cases "r < 0 \<or> indir = outdir")
    case True
    then have "flatten_dir indir outdir r v ow s = run_files [] outdir v ow (0, 0) s"
      by (simp add: flatten_dir.simps)
    then show ?thesis by (intro exI [of _ "[]"]) simp
  next
    case False
    from iterdir_is_dir [OF dir.prems] obtain ns where
      ns: "fs s indir = Some (Dir ns)" "iterdir s indir = Inr (map (\<lambda>n. indir @ [n]) ns)" by auto
    have "\<forall>p \<in> set (map (\<lambda>n. indir @ [n]) ns). p \<noteq> [] \<and> butlast p \<noteq> outdir \<and> is_dir s (butlast p)"
      using False dir.prems by auto
    from dir.IH [OF False ns(2) this] obtain L where
      L: "flatten_loop (map (\<lambda>n. indir @ [n]) ns) outdir r v ow (0, 0) s = run_files L outdir v ow (0, 0) s"
      and Lq: "\<forall>q \<in> set L. (\<exists>p \<in> set (map (\<lambda>n. indir @ [n]) ns). prefix p q \<and> (prefix p outdir \<longrightarrow> \<not> strict_prefix outdir q)) \<and>
          q \<noteq> [] \<and> butlast q \<noteq> outdir \<and> is_dir s (butlast q)"
      by blast
    have "strict_prefix indir q \<and> butlast q \<noteq> outdir \<and> is_dir s (butlast q) \<and>
          (prefix indir outdir \<longrightarrow> \<not> strict_prefix outdir q)" if q: "q \<in> set L" for q
    proof -
      from Lq q obtain n where n: "prefix (indir @ [n]) q"
        "prefix (indir @ [n]) outdir \<longrightarrow> \<not> strict_prefix outdir q"
        and rest: "butlast q \<noteq> outdir" "is_dir s (butlast q)" by auto
      from n(1) have sp: "strict_prefix indir q"
        by (auto simp: strict_prefix_def prefix_def)
      have "\<not> strict_prefix outdir q" if io: "prefix indir outdir"
      proof
        assume oq: "strict_prefix outdir q"
        from oq have "prefix outdir q" by (simp add: strict_prefix_def)
        from prefix_same_cases [OF n(1) this]
        have "prefix (indir @ [n]) outdir \<or> prefix outdir (indir @ [n])" .
        then show False
        proof
          assume "prefix (indir @ [n]) outdir"
          with n(2) oq show False by simp
        next
          assume "prefix outdir (indir @ [n])"
          then have "outdir = indir @ [n] \<or> prefix outdir indir" by (simp add: prefix_snoc)
          then show False
          proof
            assume "outdir = indir @ [n]"
            with n(2) oq show False by simp
          next
            assume "prefix outdir indir"
            with io have "indir = outdir" by (simp add: prefix_order.antisym)
            with False show False by simp
          qed
        qed
      qed
      with sp rest show ?thesis by simp
    qed
    with L False ns show ?thesis
      by (intro exI [of _ L]) (simp add: flatten_dir.simps)
  qed
next
  case (nil outdir r v ow nf nb s)
  show ?case by (intro exI [of _ "[]"]) simp
next
  case (entry p rest outdir r v ow nf nb s)
  from entry.prems have pp: "p \<noteq> []" "butlast p \<noteq> outdir" "is_dir s (butlast p)"
    and rest: "\<forall>q \<in> set rest. q \<noteq> [] \<and> butlast q \<noteq> outdir \<and> is_dir s (butlast q)" by auto
  have rest': "\<forall>q \<in> set rest. q \<noteq> [] \<and> butlast q \<noteq> outdir \<and> is_dir s1 (butlast q)"
    if "grows outdir (fs s) (fs s1)" for s1
    using rest grows_is_dir [OF that] by auto
  consider (d) "is_dir s p" | (f) "is_file s p" | (o) "\<not> is_dir s p" "\<not> is_file s p" by blast
  then show ?case
  proof cases
    case d
    from entry.IH(1) [OF d d] obtain Lp where
      Lp: "flatten_dir p outdir (r - 1) v ow s = run_files Lp outdir v ow (0, 0) s"
      and Lpq: "\<forall>q \<in> set Lp. strict_prefix p q \<and> butlast q \<noteq> outdir \<and> is_dir s (butlast q) \<and>
          (prefix p outdir \<longrightarrow> \<not> strict_prefix outdir q)" by blast
    have Lpq': "\<forall>q \<in> set Lp. (\<exists>p' \<in> set (p # rest). prefix p' q \<and> (prefix p' outdir \<longrightarrow> \<not> strict_prefix outdir q)) \<and>
          q \<noteq> [] \<and> butlast q \<noteq> outdir \<and> is_dir s (butlast q)"
      using Lpq by (auto simp: strict_prefix_def)
    obtain x s1 where run: "run_files Lp outdir v ow (0, 0) s = (x, s1)"
      by (cases "run_files Lp outdir v ow (0, 0) s") auto
    note g = run_files_grows [OF run]
    show ?thesis
    proof (cases x)
      case (Inl e)
      from run Inl have "run_files Lp outdir v ow (nf, nb) s = (Inl e, s1)"
        by (simp add: run_files_acc0 [of Lp outdir v ow nf nb s])
      with run Lp Inl d have "flatten_loop (p # rest) outdir r v ow (nf, nb) s = run_files Lp outdir v ow (nf, nb) s"
        by (simp add: flatten_loop_dir)
      with Lpq' show ?thesis by (intro exI [of _ Lp]) simp
    next
      case (Inr c)
      obtain sf sb where c: "c = (sf, sb)" by (cases c) auto
      from Lp run Inr c have fd: "flatten_dir p outdir (r - 1) v ow s = (Inr (sf, sb), s1)" by simp
      from run Inr c have A: "run_files Lp outdir v ow (nf, nb) s = (Inr (nf + sf, nb + sb), s1)"
        by (simp add: run_files_acc0 [of Lp outdir v ow nf nb s])
      from entry.IH(2) [OF d fd rest' [OF g]] obtain Lr where
        Lr: "flatten_loop rest outdir r v ow (nf + sf, nb + sb) s1 = run_files Lr outdir v ow (nf + sf, nb + sb) s1"
        and Lrq: "\<forall>q \<in> set Lr. (\<exists>p' \<in> set rest. prefix p' q \<and> (prefix p' outdir \<longrightarrow> \<not> strict_prefix outdir q)) \<and>
          q \<noteq> [] \<and> butlast q \<noteq> outdir \<and> is_dir s1 (butlast q)" by blast
      have "flatten_loop (p # rest) outdir r v ow (nf, nb) s = run_files (Lp @ Lr) outdir v ow (nf, nb) s"
        using fd A Lr d by (simp add: flatten_loop_dir run_files_append)
      moreover have "\<forall>q \<in> set (Lp @ Lr). (\<exists>p' \<in> set (p # rest). prefix p' q \<and> (prefix p' outdir \<longrightarrow> \<not> strict_prefix outdir q)) \<and>
          q \<noteq> [] \<and> butlast q \<noteq> outdir \<and> is_dir s (butlast q)"
        using Lpq' Lrq grows_is_dir_back [OF g] by auto
      ultimately show ?thesis by (intro exI [of _ "Lp @ Lr"]) simp
    qed
  next
    case f
    obtain x s1 where st: "file_step outdir v ow p s = (x, s1)"
      by (cases "file_step outdir v ow p s") auto
    note g = file_step_grows [OF st]
    have pq: "(\<exists>p' \<in> set (p # rest). prefix p' p \<and> (prefix p' outdir \<longrightarrow> \<not> strict_prefix outdir p)) \<and>
          p \<noteq> [] \<and> butlast p \<noteq> outdir \<and> is_dir s (butlast p)"
      using pp by (auto simp: strict_prefix_def)
    show ?thesis
    proof (cases x)
      case (Inl e)
      with st f have "flatten_loop (p # rest) outdir r v ow (nf, nb) s = run_files [p] outdir v ow (nf, nb) s"
        by (simp add: flatten_loop_file)
      with pq show ?thesis by (intro exI [of _ "[p]"]) simp
    next
      case (Inr c)
      obtain df db where c: "c = (df, db)" by (cases c) auto
      from entry.IH(3) [OF f st [unfolded Inr c] rest' [OF g]] obtain Lr where
        Lr: "flatten_loop rest outdir r v ow (nf + df, nb + db) s1 = run_files Lr outdir v ow (nf + df, nb + db) s1"
        and Lrq: "\<forall>q \<in> set Lr. (\<exists>p' \<in> set rest. prefix p' q \<and> (prefix p' outdir \<longrightarrow> \<not> strict_prefix outdir q)) \<and>
          q \<noteq> [] \<and> butlast q \<noteq> outdir \<and> is_dir s1 (butlast q)" by blast
      have "flatten_loop (p # rest) outdir r v ow (nf, nb) s = run_files (p # Lr) outdir v ow (nf, nb) s"
        using st Inr c Lr f by (simp add: flatten_loop_file)
      moreover have "\<forall>q \<in> set (p # Lr). (\<exists>p' \<in> set (p # rest). prefix p' q \<and> (prefix p' outdir \<longrightarrow> \<not> strict_prefix outdir q)) \<and>
          q \<noteq> [] \<and> butlast q \<noteq> outdir \<and> is_dir s (butlast q)"
        using pq Lrq grows_is_dir_back [OF g] by auto
      ultimately show ?thesis by (intro exI [of _ "p # Lr"]) simp
    qed
  next
    case o
    from entry.IH(4) [OF o rest] obtain Lr where
      Lr: "flatten_loop rest outdir r v ow (nf, nb) s = run_files Lr outdir v ow (nf, nb) s"
      and Lrq: "\<forall>q \<in> set Lr. (\<exists>p' \<in> set rest. prefix p' q \<and> (prefix p' outdir \<longrightarrow> \<not> strict_prefix outdir q)) \<and>
          q \<noteq> [] \<and> butlast q \<noteq> outdir \<and> is_dir s (butlast q)" by blast
    have "flatten_loop (p # rest) outdir r v ow (nf, nb) s = run_files Lr outdir v ow (nf, nb) s"
      using Lr o by (simp add: flatten_loop_other)
    with Lrq show ?thesis by (intro exI [of _ Lr]) auto
  qed
qed

subsection \<open>The events of a run\<close>

lemma file_step_event:
  assumes "file_step outdir v ow p s = (x, s')"
  shows "\<exists>ev. trace s' = trace s @ [ev] \<and> event_path ev = p \<and>
     out s' = out s @ (if v then notification outdir ev else []) \<and>
     (case x of
        Inl e \<Rightarrow> ev = Failed p e
      | Inr (df, db) \<Rightarrow> \<not> is_failed ev \<and> df = (if is_copied ev then 1 else 0) \<and> db = bytes_written ev)"
proof (cases x)
  case (Inl e)
  from file_step_Inl(3) [OF assms [unfolded Inl]] Inl show ?thesis
    by (intro exI [of _ "Failed p e"]) simp
next
  case (Inr c)
  obtain df db where c: "c = (df, db)" by (cases c) auto
  from assms [unfolded Inr c] show ?thesis
  proof (cases rule: file_step_Inr)
    case skip
    with Inr c show ?thesis by (intro exI [of _ "Skipped p"]) simp
  next
    case (copy dst bs m)
    with Inr c show ?thesis by (intro exI [of _ "Copied p dst bs"]) simp
  qed
qed

lemma run_files_events:
  assumes "run_files L outdir v ow (a, b) s = (x, s')"
  shows "\<exists>evs. trace s' = trace s @ evs \<and>
     out s' = out s @ (if v then concat (map (notification outdir) evs) else []) \<and>
     map event_path evs = take (length evs) L \<and>
     (case x of
        Inr (nf, nb) \<Rightarrow> length evs = length L \<and> (\<forall>ev \<in> set evs. \<not> is_failed ev) \<and>
          nf = a + int (length (filter is_copied evs)) \<and> nb = b + sum_list (map bytes_written evs)
      | Inl e \<Rightarrow> evs \<noteq> [] \<and> last evs = Failed (event_path (last evs)) e \<and>
          (\<forall>ev \<in> set (butlast evs). \<not> is_failed ev))"
  using assms
proof (induction L arbitrary: a b s)
  case Nil
  then show ?case by (intro exI [of _ "[]"]) auto
next
  case (Cons p L)
  obtain y s1 where st: "file_step outdir v ow p s = (y, s1)"
    by (cases "file_step outdir v ow p s") auto
  from file_step_event [OF st] obtain ev where
    ev: "trace s1 = trace s @ [ev]" "event_path ev = p"
      "out s1 = out s @ (if v then notification outdir ev else [])"
      "case y of Inl e \<Rightarrow> ev = Failed p e
        | Inr (df, db) \<Rightarrow> \<not> is_failed ev \<and> df = (if is_copied ev then 1 else 0) \<and> db = bytes_written ev"
    by blast
  show ?case
  proof (cases y)
    case (Inl e)
    with Cons.prems st have "x = Inl e" "s' = s1" by auto
    with ev Inl show ?thesis by (intro exI [of _ "[ev]"]) simp
  next
    case (Inr c)
    obtain df db where c: "c = (df, db)" by (cases c) auto
    from Cons.prems st Inr c have "run_files L outdir v ow (a + df, b + db) s1 = (x, s')" by simp
    from Cons.IH [OF this] obtain evs where
      evs: "trace s' = trace s1 @ evs"
        "out s' = out s1 @ (if v then concat (map (notification outdir) evs) else [])"
        "map event_path evs = take (length evs) L"
        "case x of
          Inr (nf, nb) \<Rightarrow> length evs = length L \<and> (\<forall>ev \<in> set evs. \<not> is_failed ev) \<and>
            nf = a + df + int (length (filter is_copied evs)) \<and> nb = b + db + sum_list (map bytes_written evs)
        | Inl e \<Rightarrow> evs \<noteq> [] \<and> last evs = Failed (event_path (last evs)) e \<and>
            (\<forall>ev \<in> set (butlast evs). \<not> is_failed ev)"
      by blast
    from ev(4) Inr c have nf: "\<not> is_failed ev" "df = (if is_copied ev then 1 else 0)" "db = bytes_written ev"
      by auto
    show ?thesis
    proof (intro exI [of _ "ev # evs"] conjI)
      show "trace s' = trace s @ ev # evs" using ev(1) evs(1) by simp
      show "out s' = out s @ (if v then concat (map (notification outdir) (ev # evs)) else [])"
        using ev(3) evs(2) by simp
      show "map event_path (ev # evs) = take (length (ev # evs)) (p # L)"
        using ev(2) evs(3) by simp
      show "case x of
          Inr (nf, nb) \<Rightarrow> length (ev # evs) = length (p # L) \<and> (\<forall>ev \<in> set (ev # evs). \<not> is_failed ev) \<and>
            nf = a + int (length (filter is_copied (ev # evs))) \<and>
            nb = b + sum_list (map bytes_written (ev # evs))
        | Inl e \<Rightarrow> ev # evs \<noteq> [] \<and> last (ev # evs) = Failed (event_path (last (ev # evs))) e \<and>
            (\<forall>ev \<in> set (butlast (ev # evs)). \<not> is_failed ev)"
      proof (cases x)
        case (Inl e)
        with evs(4) nf(1) show ?thesis by auto
      next
        case (Inr c')
        obtain nf' nb' where "c' = (nf', nb')" by (cases c') auto
        with evs(4) nf Inr show ?thesis by auto
      qed
    qed
  qed
qed

lemma new_events_append: "trace s' = trace s @ evs \<Longrightarrow> new_events s s' = evs"
  by (simp add: new_events_def)

text \<open>The same for a traversal.\<close>

lemma flatten_events:
  assumes "flatten_dir indir outdir r v ow s = (x, s')" and "is_dir s indir"
  shows "trace s' = trace s @ new_events s s'"
    and "out s' = out s @ (if v then concat (map (notification outdir) (new_events s s')) else [])"
    and "case x of
        Inr (nf, nb) \<Rightarrow> (\<forall>ev \<in> set (new_events s s'). \<not> is_failed ev) \<and>
          nf = int (length (filter is_copied (new_events s s'))) \<and>
          nb = sum_list (map bytes_written (new_events s s'))
      | Inl e \<Rightarrow> new_events s s' \<noteq> [] \<and>
          last (new_events s s') = Failed (event_path (last (new_events s s'))) e \<and>
          (\<forall>ev \<in> set (butlast (new_events s s')). \<not> is_failed ev)"
    and "\<forall>ev \<in> set (new_events s s'). strict_prefix indir (event_path ev) \<and>
          butlast (event_path ev) \<noteq> outdir \<and> is_dir s (butlast (event_path ev)) \<and>
          (prefix indir outdir \<longrightarrow> \<not> strict_prefix outdir (event_path ev))"
proof -
  from flatten_is_run(1) [OF assms(2), of outdir r v ow] obtain L where
    L: "flatten_dir indir outdir r v ow s = run_files L outdir v ow (0, 0) s"
    and Lq: "\<forall>q \<in> set L. strict_prefix indir q \<and> butlast q \<noteq> outdir \<and> is_dir s (butlast q) \<and>
          (prefix indir outdir \<longrightarrow> \<not> strict_prefix outdir q)" by blast
  from L assms(1) have "run_files L outdir v ow (0, 0) s = (x, s')" by simp
  from run_files_events [OF this] obtain evs where
    evs: "trace s' = trace s @ evs"
      "out s' = out s @ (if v then concat (map (notification outdir) evs) else [])"
      "map event_path evs = take (length evs) L"
      "case x of
        Inr (nf, nb) \<Rightarrow> length evs = length L \<and> (\<forall>ev \<in> set evs. \<not> is_failed ev) \<and>
          nf = 0 + int (length (filter is_copied evs)) \<and> nb = 0 + sum_list (map bytes_written evs)
      | Inl e \<Rightarrow> evs \<noteq> [] \<and> last evs = Failed (event_path (last evs)) e \<and>
          (\<forall>ev \<in> set (butlast evs). \<not> is_failed ev)"
    by blast
  note ne = new_events_append [OF evs(1)]
  show "trace s' = trace s @ new_events s s'" using evs(1) ne by simp
  show "out s' = out s @ (if v then concat (map (notification outdir) (new_events s s')) else [])"
    using evs(2) ne by simp
  show "case x of
        Inr (nf, nb) \<Rightarrow> (\<forall>ev \<in> set (new_events s s'). \<not> is_failed ev) \<and>
          nf = int (length (filter is_copied (new_events s s'))) \<and>
          nb = sum_list (map bytes_written (new_events s s'))
      | Inl e \<Rightarrow> new_events s s' \<noteq> [] \<and>
          last (new_events s s') = Failed (event_path (last (new_events s s'))) e \<and>
          (\<forall>ev \<in> set (butlast (new_events s s')). \<not> is_failed ev)"
    using evs(4) unfolding ne by (auto split: sum.splits)
  have "set (map event_path evs) \<subseteq> set L"
    unfolding evs(3) by (rule set_take_subset)
  with Lq show "\<forall>ev \<in> set (new_events s s'). strict_prefix indir (event_path ev) \<and>
          butlast (event_path ev) \<noteq> outdir \<and> is_dir s (butlast (event_path ev)) \<and>
          (prefix indir outdir \<longrightarrow> \<not> strict_prefix outdir (event_path ev))"
    unfolding ne by auto
qed

lemma flatten_not_dir:
  assumes "\<not> is_dir s indir"
  shows "flatten_dir indir outdir r v ow s =
     (if r < 0 \<or> indir = outdir then (Inr (0, 0), s)
      else (Inl (if fs s indir = None then FileNotFoundError else NotADirectoryError), s))"
  using assms
  by (auto simp: flatten_dir.simps iterdir_def is_dir_def split: option.splits node.splits)

lemmas eval_simps = flatten_dir.simps flatten_loop.simps(2) is_dir_def is_file_def exists_path_def
  iterdir_def st_size_def shutil_copy_def write_file_def name_def Let_def new_events_def

subsection \<open>The totals\<close>

lemma file_step_nonneg:
  assumes "file_step outdir v ow p s = (Inr (df, db), s')"
  shows "0 \<le> df \<and> 0 \<le> db"
  using assms by (cases rule: file_step_Inr) auto

lemma flatten_mono:
  "flatten_dir indir outdir r v ow s = (Inr (nf, nb), s') \<Longrightarrow> 0 \<le> nf \<and> 0 \<le> nb"
  "flatten_loop ps outdir r v ow acc s = (Inr (nf, nb), s') \<Longrightarrow> fst acc \<le> nf \<and> snd acc \<le> nb"
proof (induction indir outdir r v ow s and ps outdir r v ow acc s arbitrary: nf nb s' and nf nb s'
    rule: flatten_induct)
  case (dir indir outdir r v ow s)
  show ?case
  proof (cases "r < 0 \<or> indir = outdir")
    case True
    with dir.prems show ?thesis by (simp add: flatten_dir.simps)
  next
    case False
    with dir.prems obtain ps where ps: "iterdir s indir = Inr ps"
      by (cases "iterdir s indir") (auto simp: flatten_dir.simps)
    with dir.prems False have "flatten_loop ps outdir r v ow (0, 0) s = (Inr (nf, nb), s')"
      by (simp add: flatten_dir.simps)
    from dir.IH [OF False ps this] show ?thesis by simp
  qed
next
  case (nil outdir r v ow nf0 nb0 s)
  then show ?case by simp
next
  case (entry p rest outdir r v ow nf0 nb0 s)
  consider (d) "is_dir s p" | (f) "is_file s p" | (o) "\<not> is_dir s p" "\<not> is_file s p" by blast
  then show ?case
  proof cases
    case d
    obtain x s1 where fd: "flatten_dir p outdir (r - 1) v ow s = (x, s1)"
      by (cases "flatten_dir p outdir (r - 1) v ow s") auto
    show ?thesis
    proof (cases x)
      case (Inl e)
      with entry.prems fd d show ?thesis by (simp add: flatten_loop_dir)
    next
      case (Inr c)
      obtain sf sb where c: "c = (sf, sb)" by (cases c) auto
      note fd' = fd [unfolded Inr c]
      from entry.IH(1) [OF d fd'] have 1: "0 \<le> sf \<and> 0 \<le> sb" .
      from entry.prems fd' d have "flatten_loop rest outdir r v ow (nf0 + sf, nb0 + sb) s1 = (Inr (nf, nb), s')"
        by (simp add: flatten_loop_dir)
      from entry.IH(2) [OF d fd' this] 1 show ?thesis by simp
    qed
  next
    case f
    obtain x s1 where st: "file_step outdir v ow p s = (x, s1)"
      by (cases "file_step outdir v ow p s") auto
    show ?thesis
    proof (cases x)
      case (Inl e)
      with entry.prems st f show ?thesis by (simp add: flatten_loop_file)
    next
      case (Inr c)
      obtain df db where c: "c = (df, db)" by (cases c) auto
      note st' = st [unfolded Inr c]
      from entry.prems st' f have "flatten_loop rest outdir r v ow (nf0 + df, nb0 + db) s1 = (Inr (nf, nb), s')"
        by (simp add: flatten_loop_file)
      from entry.IH(3) [OF f st' this] file_step_nonneg [OF st'] show ?thesis by simp
    qed
  next
    case o
    with entry.prems have "flatten_loop rest outdir r v ow (nf0, nb0) s = (Inr (nf, nb), s')"
      by (simp add: flatten_loop_other)
    from entry.IH(4) [OF o this] show ?thesis by simp
  qed
qed

subsection \<open>Failures\<close>

lemma flatten_loop_copy_fails:
  assumes f: "is_file t path"
    and ns: "\<not> (exists_path t (outdir @ [name path]) \<and> \<not> ow)"
    and c: "shutil_copy (fs t) path (outdir @ [name path]) = Inl e"
  shows "flatten_loop (path # rest) outdir r v ow acc t =
     (Inl e, t\<lparr>out := out t @ (if v then [outdir @ [name path]] else []),
               trace := trace t @ [Failed path e]\<rparr>)"
proof -
  obtain a b where acc: "acc = (a, b)" by (cases acc) auto
  have "file_step outdir v ow path t =
     (Inl e, t\<lparr>out := out t @ (if v then [outdir @ [name path]] else []),
               trace := trace t @ [Failed path e]\<rparr>)"
    using ns c by (auto simp: file_step_def Let_def)
  with f acc show ?thesis by (simp add: flatten_loop_file)
qed

lemma flatten_loop_subdir_fails:
  assumes "is_dir t path" and "flatten_dir path outdir (r - 1) v ow t = (Inl e, t')"
  shows "flatten_loop (path # rest) outdir r v ow acc t = (Inl e, t')"
proof -
  obtain a b where acc: "acc = (a, b)" by (cases acc) auto
  with assms show ?thesis by (simp add: flatten_loop_dir)
qed

subsection \<open>A target that is already there\<close>

lemma file_step_keeps_files:
  assumes st: "file_step outdir v False p s = (x, s')" and q: "fs s q = Some (File rd bs)"
  shows "fs s' q = Some (File rd bs)"
proof (cases x)
  case (Inl e)
  from file_step_Inl(3) [OF st [unfolded Inl]] q show ?thesis by simp
next
  case (Inr c)
  obtain df db where c: "c = (df, db)" by (cases c) auto
  from st [unfolded Inr c] show ?thesis
  proof (cases rule: file_step_Inr)
    case skip
    with q show ?thesis by simp
  next
    case (copy dst bs' m)
    from copy(1) have n: "fs s (outdir @ [name p]) = None" by (simp add: exists_path_def)
    from shutil_copy_Inr(4) [OF copy(2)] n have "dst = outdir @ [name p]" by simp
    with n q have "q \<noteq> dst" by auto
    with q copy(5) show ?thesis by (simp add: write_file_file)
  qed
qed

lemma run_files_keeps_files:
  "run_files L outdir v False acc s = (x, s') \<Longrightarrow> fs s q = Some (File rd bs) \<Longrightarrow>
   fs s' q = Some (File rd bs)"
proof (induction L arbitrary: acc s)
  case Nil
  then show ?case by (cases acc) auto
next
  case (Cons p L)
  obtain a b where acc: "acc = (a, b)" by (cases acc) auto
  obtain y s1 where st: "file_step outdir v False p s = (y, s1)"
    by (cases "file_step outdir v False p s") auto
  note k = file_step_keeps_files [OF st Cons.prems(2)]
  show ?case
  proof (cases y)
    case (Inl e)
    with Cons.prems st acc k show ?thesis by simp
  next
    case (Inr c)
    obtain df db where "c = (df, db)" by (cases c) auto
    with Cons.prems st acc Inr have "run_files L outdir v False (a + df, b + db) s1 = (x, s')" by simp
    from Cons.IH [OF this k] show ?thesis .
  qed
qed

lemma flatten_keeps_files:
  assumes "flatten_dir indir outdir r v False s = (x, s')" and "fs s q = Some (File rd bs)"
  shows "fs s' q = Some (File rd bs)"
proof (cases "is_dir s indir")
  case True
  from flatten_is_run(1) [OF True, of outdir r v False] obtain L where
    "flatten_dir indir outdir r v False s = run_files L outdir v False (0, 0) s" by blast
  with assms(1) have "run_files L outdir v False (0, 0) s = (x, s')" by simp
  from run_files_keeps_files [OF this assms(2)] show ?thesis .
next
  case False
  from assms flatten_not_dir [OF False, of outdir r v False] show ?thesis
    by (auto split: if_splits)
qed

text \<open>
  The loop at a plain file whose target \<open>outdir / path.name\<close> exists. Without
  \<open>overwrite\<close> the loop goes on to the next entry with the same file system, the same
  output and the same totals; and over a whole call without \<open>overwrite\<close> every plain
  file that was there before keeps its bytes. With \<open>overwrite\<close>, a target that is a
  plain file and may be written gets the bytes and the mode of the source (which must be
  readable, and a different file), and the loop goes on with one more file and that
  many more bytes in its totals.
\<close>

lemma flatten_loop_existing_target:
  assumes "is_file s path" and "exists_path s (outdir @ [name path])"
  shows "(\<not> overwrite \<longrightarrow>
        flatten_loop (path # rest) outdir recursions_left verbose overwrite (n_files, n_bytes) s =
        flatten_loop rest outdir recursions_left verbose overwrite (n_files, n_bytes)
          (s\<lparr>trace := trace s @ [Skipped path]\<rparr>)) \<and>
     (\<forall>indir r t x t' q rd bs'.
        \<not> overwrite \<and> flatten_dir indir outdir r verbose overwrite t = (x, t') \<and>
        fs t q = Some (File rd bs') \<longrightarrow> fs t' q = Some (File rd bs')) \<and>
     (overwrite \<and> fs s path = Some (File m bs) \<and> readable m \<and>
      fs s (outdir @ [name path]) = Some (File m' bs') \<and> writable m' \<and>
      path \<noteq> outdir @ [name path] \<longrightarrow>
        flatten_loop (path # rest) outdir recursions_left verbose overwrite (n_files, n_bytes) s =
        flatten_loop rest outdir recursions_left verbose overwrite
          (n_files + 1, n_bytes + int (length bs))
          (s\<lparr>fs := write_file (fs s) (outdir @ [name path]) m bs,
             out := out s @ (if verbose then [outdir @ [name path]] else []),
             trace := trace s @ [Copied path (outdir @ [name path]) bs]\<rparr>) \<and>
        write_file (fs s) (outdir @ [name path]) m bs (outdir @ [name path]) = Some (File m bs))"
proof (intro conjI allI impI)
  assume "\<not> overwrite"
  with assms have "file_step outdir verbose overwrite path s =
      (Inr (0, 0), s\<lparr>trace := trace s @ [Skipped path]\<rparr>)"
    by (simp add: file_step_def)
  with assms(1)
  show "flatten_loop (path # rest) outdir recursions_left verbose overwrite (n_files, n_bytes) s =
        flatten_loop rest outdir recursions_left verbose overwrite (n_files, n_bytes)
          (s\<lparr>trace := trace s @ [Skipped path]\<rparr>)"
    by (simp add: flatten_loop_file)
next
  fix indir r t x t' q rd bs'
  assume "\<not> overwrite \<and> flatten_dir indir outdir r verbose overwrite t = (x, t') \<and>
        fs t q = Some (File rd bs')"
  then show "fs t' q = Some (File rd bs')"
    using flatten_keeps_files [of indir outdir r verbose t x t' q rd bs'] by auto
next
  assume a: "overwrite \<and> fs s path = Some (File m bs) \<and> readable m \<and>
      fs s (outdir @ [name path]) = Some (File m' bs') \<and> writable m' \<and>
      path \<noteq> outdir @ [name path]"
  then have t: "fs s (outdir @ [name path]) = Some (File m' bs')" by simp
  from a t have c: "shutil_copy (fs s) path (outdir @ [name path]) =
      Inr (outdir @ [name path], bs, write_file (fs s) (outdir @ [name path]) m bs)"
    by (simp add: shutil_copy_def Let_def)
  from a have "write_file (fs s) (outdir @ [name path]) m bs path = Some (File m bs)"
    by (simp add: write_file_file)
  with a c have "file_step outdir verbose overwrite path s =
      (Inr (1, int (length bs)),
       s\<lparr>fs := write_file (fs s) (outdir @ [name path]) m bs,
          out := out s @ (if verbose then [outdir @ [name path]] else []),
          trace := trace s @ [Copied path (outdir @ [name path]) bs]\<rparr>)"
    by (simp add: file_step_def Let_def st_size_def)
  with assms(1)
  show "flatten_loop (path # rest) outdir recursions_left verbose overwrite (n_files, n_bytes) s =
        flatten_loop rest outdir recursions_left verbose overwrite
          (n_files + 1, n_bytes + int (length bs))
          (s\<lparr>fs := write_file (fs s) (outdir @ [name path]) m bs,
             out := out s @ (if verbose then [outdir @ [name path]] else []),
             trace := trace s @ [Copied path (outdir @ [name path]) bs]\<rparr>)"
    by (simp add: flatten_loop_file)
  show "write_file (fs s) (outdir @ [name path]) m bs (outdir @ [name path]) = Some (File m bs)"
    by (rule write_file_same)
qed

lemma flatten_loop_existing_target_example:
  "is_file collision_state [''src'', ''f''] \<and>
   exists_path collision_state [''out'', ''f''] \<and>
   flatten_loop [[''src'', ''f''], [''src'', ''h'']] [''out''] 1 True False (0, 0) collision_state =
     flatten_loop [[''src'', ''h'']] [''out''] 1 True False (0, 0)
       (collision_state\<lparr>trace := trace collision_state @ [Skipped [''src'', ''f'']]\<rparr>) \<and>
   fst (flatten_dir [''src''] [''out''] 1 True False collision_state) = Inr (1, 1) \<and>
   fs (snd (flatten_dir [''src''] [''out''] 1 True False collision_state)) [''out'', ''f''] =
     Some (File rw [9]) \<and>
   fs collision_state [''src'', ''f''] = Some (File rw [1, 2, 3]) \<and>
   flatten_loop [[''src'', ''f''], [''src'', ''h'']] [''out''] 1 True True (0, 0) collision_state =
     flatten_loop [[''src'', ''h'']] [''out''] 1 True True (1, 3)
       (collision_state\<lparr>fs := write_file (fs collision_state) [''out'', ''f''] rw [1, 2, 3],
          out := out collision_state @ [[''out'', ''f'']],
          trace := trace collision_state @ [Copied [''src'', ''f''] [''out'', ''f''] [1, 2, 3]]\<rparr>) \<and>
   fst (flatten_dir [''src''] [''out''] 1 True True collision_state) = Inr (2, 4) \<and>
   fs (snd (flatten_dir [''src''] [''out''] 1 True True collision_state)) [''out'', ''f''] =
     Some (File rw [1, 2, 3])"
proof -
  have f: "is_file collision_state [''src'', ''f'']"
    by (simp add: is_file_def collision_state_def collision_fs_def)
  have e: "exists_path collision_state [''out'', ''f'']"
    by (simp add: exists_path_def collision_state_def collision_fs_def)
  have e': "exists_path collision_state ([''out''] @ [name [''src'', ''f'']])"
    using e by (simp add: name_def)
  have src: "fs collision_state [''src'', ''f''] = Some (File rw [1, 2, 3])"
    by (simp add: collision_state_def collision_fs_def)
  have tf: "fs collision_state [''out'', ''f''] = Some (File rw [9])"
    by (simp add: collision_state_def collision_fs_def)
  have skip: "flatten_loop [[''src'', ''f''], [''src'', ''h'']] [''out''] 1 True False (0, 0) collision_state =
     flatten_loop [[''src'', ''h'']] [''out''] 1 True False (0, 0)
       (collision_state\<lparr>trace := trace collision_state @ [Skipped [''src'', ''f'']]\<rparr>)"
    using flatten_loop_existing_target [OF f e', where overwrite = False and rest = "[[''src'', ''h'']]"
        and recursions_left = 1 and verbose = True and n_files = 0 and n_bytes = 0]
    by simp
  have over: "flatten_loop [[''src'', ''f''], [''src'', ''h'']] [''out''] 1 True True (0, 0) collision_state =
     flatten_loop [[''src'', ''h'']] [''out''] 1 True True (1, 3)
       (collision_state\<lparr>fs := write_file (fs collision_state) [''out'', ''f''] rw [1, 2, 3],
          out := out collision_state @ [[''out'', ''f'']],
          trace := trace collision_state @ [Copied [''src'', ''f''] [''out'', ''f''] [1, 2, 3]]\<rparr>)"
    using flatten_loop_existing_target [OF f e', where overwrite = True and rest = "[[''src'', ''h'']]"
        and recursions_left = 1 and verbose = True and n_files = 0 and n_bytes = 0
        and bs = "[1, 2, 3]" and m = rw and m' = rw and bs' = "[9]"] src tf
    by (simp add: name_def)
  have r1: "fst (flatten_dir [''src''] [''out''] 1 True False collision_state) = Inr (1, 1)"
    "fs (snd (flatten_dir [''src''] [''out''] 1 True False collision_state)) [''out'', ''f''] =
     Some (File rw [9])"
    by (simp_all add: eval_simps collision_state_def collision_fs_def)
  have r2: "fst (flatten_dir [''src''] [''out''] 1 True True collision_state) = Inr (2, 4)"
    "fs (snd (flatten_dir [''src''] [''out''] 1 True True collision_state)) [''out'', ''f''] =
     Some (File rw [1, 2, 3])"
    by (simp_all add: eval_simps collision_state_def collision_fs_def)
  from f e skip over src r1 r2 show ?thesis by blast
qed

subsection \<open>The verbose flag\<close>

lemma file_step_quiet:
  "file_step outdir False ow p (s\<lparr>out := t\<rparr>) =
     (fst (file_step outdir v ow p s), (snd (file_step outdir v ow p s))\<lparr>out := t\<rparr>)"
  by (auto simp: file_step_def Let_def exists_path_def st_size_def split: sum.splits prod.splits)

lemma is_dir_out [simp]: "is_dir (s\<lparr>out := t\<rparr>) p = is_dir s p"
  by (simp add: is_dir_def)

lemma is_file_out [simp]: "is_file (s\<lparr>out := t\<rparr>) p = is_file s p"
  by (simp add: is_file_def)

lemma iterdir_out [simp]: "iterdir (s\<lparr>out := t\<rparr>) p = iterdir s p"
  by (simp add: iterdir_def)

lemma flatten_quiet:
  "flatten_dir indir outdir r False ow (s\<lparr>out := t\<rparr>) =
     (fst (flatten_dir indir outdir r v ow s), (snd (flatten_dir indir outdir r v ow s))\<lparr>out := t\<rparr>)"
  "flatten_loop ps outdir r False ow acc (s\<lparr>out := t\<rparr>) =
     (fst (flatten_loop ps outdir r v ow acc s), (snd (flatten_loop ps outdir r v ow acc s))\<lparr>out := t\<rparr>)"
proof (induction indir outdir r v ow s and ps outdir r v ow acc s rule: flatten_induct)
  case (dir indir outdir r v ow s)
  show ?case
  proof (cases "r < 0 \<or> indir = outdir")
    case True
    then show ?thesis by (simp add: flatten_dir.simps)
  next
    case False
    show ?thesis
    proof (cases "iterdir s indir")
      case (Inl e)
      with False show ?thesis by (simp add: flatten_dir.simps)
    next
      case (Inr ps)
      from dir.IH [OF False Inr] False Inr show ?thesis by (simp add: flatten_dir.simps)
    qed
  qed
next
  case (nil outdir r v ow nf nb s)
  show ?case by simp
next
  case (entry p rest outdir r v ow nf nb s)
  consider (d) "is_dir s p" | (f) "is_file s p" | (o) "\<not> is_dir s p" "\<not> is_file s p" by blast
  then show ?case
  proof cases
    case d
    obtain x s1 where fd: "flatten_dir p outdir (r - 1) v ow s = (x, s1)"
      by (cases "flatten_dir p outdir (r - 1) v ow s") auto
    from entry.IH(1) [OF d] fd
    have q: "flatten_dir p outdir (r - 1) False ow (s\<lparr>out := t\<rparr>) = (x, s1\<lparr>out := t\<rparr>)" by simp
    show ?thesis
    proof (cases x)
      case (Inl e)
      with fd q d show ?thesis by (simp add: flatten_loop_dir)
    next
      case (Inr c)
      obtain sf sb where c: "c = (sf, sb)" by (cases c) auto
      from entry.IH(2) [OF d fd [unfolded Inr c]] fd q d Inr c show ?thesis
        by (simp add: flatten_loop_dir)
    qed
  next
    case f
    obtain x s1 where st: "file_step outdir v ow p s = (x, s1)"
      by (cases "file_step outdir v ow p s") auto
    from file_step_quiet [where outdir = outdir and ow = ow and p = p and s = s and t = t and v = v] st
    have q: "file_step outdir False ow p (s\<lparr>out := t\<rparr>) = (x, s1\<lparr>out := t\<rparr>)" by simp
    show ?thesis
    proof (cases x)
      case (Inl e)
      with st q f show ?thesis by (simp add: flatten_loop_file)
    next
      case (Inr c)
      obtain df db where c: "c = (df, db)" by (cases c) auto
      from entry.IH(3) [OF f st [unfolded Inr c]] st q f Inr c show ?thesis
        by (simp add: flatten_loop_file)
    qed
  next
    case o
    from entry.IH(4) [OF o] o show ?thesis by (simp add: flatten_loop_other)
  qed
qed

lemma notifications_of_copies:
  "\<forall>ev \<in> set evs. \<not> is_failed ev \<Longrightarrow>
   concat (map (notification outdir) evs) =
   map (\<lambda>ev. outdir @ [name (event_path ev)]) (filter is_copied evs)"
proof (induction evs)
  case Nil
  show ?case by simp
next
  case (Cons ev evs)
  then show ?case by (cases ev) auto
qed

text \<open>
  Two calls that differ in \<open>verbose\<close> only end alike: the same totals or the
  same error, the same file system, the same files skipped and copied. The call without
  \<open>verbose\<close> prints nothing. The call with \<open>verbose\<close> prints one line for every copy it
  starts, \<open>outdir / path.name\<close> of the file, and none for a file it skips; when it
  returns its totals, these are the lines of the files it has copied, one each, in the
  order of the copies, and there are \<open>n_files\<close> of them.
\<close>

lemma verbose_changes_output_only:
  assumes "flatten_dir indir outdir recursions_left True overwrite s = (x1, s1)"
    and "flatten_dir indir outdir recursions_left False overwrite s = (x2, s2)"
  shows "x1 = x2 \<and> fs s1 = fs s2 \<and> trace s1 = trace s2 \<and> out s2 = out s \<and>
     out s1 = out s @ concat (map (notification outdir) (new_events s s1)) \<and>
     (\<forall>n_files n_bytes. x1 = Inr (n_files, n_bytes) \<longrightarrow>
        out s1 = out s @ map (\<lambda>ev. outdir @ [name (event_path ev)])
                           (filter is_copied (new_events s s1)) \<and>
        int (length (filter is_copied (new_events s s1))) = n_files)"
proof -
  from flatten_quiet(1) [where indir = indir and outdir = outdir and r = recursions_left
      and ow = overwrite and s = s and t = "out s" and v = True] assms
  have q: "x2 = x1" "s2 = s1\<lparr>out := out s\<rparr>" by simp_all
  have o: "out s1 = out s @ concat (map (notification outdir) (new_events s s1))"
    and c: "\<forall>n_files n_bytes. x1 = Inr (n_files, n_bytes) \<longrightarrow>
        (\<forall>ev \<in> set (new_events s s1). \<not> is_failed ev) \<and>
        int (length (filter is_copied (new_events s s1))) = n_files"
  proof -
    show "out s1 = out s @ concat (map (notification outdir) (new_events s s1))"
    proof (cases "is_dir s indir")
      case True
      from flatten_events(2) [OF assms(1) True] show ?thesis by simp
    next
      case False
      from assms(1) flatten_not_dir [OF False, of outdir recursions_left True overwrite]
      show ?thesis by (auto simp: new_events_def split: if_splits)
    qed
    show "\<forall>n_files n_bytes. x1 = Inr (n_files, n_bytes) \<longrightarrow>
        (\<forall>ev \<in> set (new_events s s1). \<not> is_failed ev) \<and>
        int (length (filter is_copied (new_events s s1))) = n_files"
    proof (cases "is_dir s indir")
      case True
      from flatten_events(3) [OF assms(1) True] show ?thesis by auto
    next
      case False
      from assms(1) flatten_not_dir [OF False, of outdir recursions_left True overwrite]
      show ?thesis by (auto simp: new_events_def split: if_splits)
    qed
  qed
  from o c have "\<forall>n_files n_bytes. x1 = Inr (n_files, n_bytes) \<longrightarrow>
        out s1 = out s @ map (\<lambda>ev. outdir @ [name (event_path ev)])
                           (filter is_copied (new_events s s1)) \<and>
        int (length (filter is_copied (new_events s s1))) = n_files"
    using notifications_of_copies [of "new_events s s1" outdir] by auto
  with q o show ?thesis by simp
qed

lemma verbose_changes_output_only_example:
  "fst (flatten_dir [''src''] [''out''] 1 True False collision_state) = Inr (1, 1) \<and>
   fst (flatten_dir [''src''] [''out''] 1 False False collision_state) = Inr (1, 1) \<and>
   fs (snd (flatten_dir [''src''] [''out''] 1 True False collision_state)) =
     fs (snd (flatten_dir [''src''] [''out''] 1 False False collision_state)) \<and>
   out (snd (flatten_dir [''src''] [''out''] 1 False False collision_state)) = [] \<and>
   new_events collision_state (snd (flatten_dir [''src''] [''out''] 1 True False collision_state)) =
     [Skipped [''src'', ''f''], Copied [''src'', ''h''] [''out'', ''h''] [4]] \<and>
   out (snd (flatten_dir [''src''] [''out''] 1 True False collision_state)) = [[''out'', ''h'']]"
proof -
  have f1: "fst (flatten_dir [''src''] [''out''] 1 True False collision_state) = Inr (1, 1)"
    by (simp add: eval_simps collision_state_def collision_fs_def)
  have f2: "fst (flatten_dir [''src''] [''out''] 1 False False collision_state) = Inr (1, 1)"
    by (simp add: eval_simps collision_state_def collision_fs_def)
  have n: "new_events collision_state (snd (flatten_dir [''src''] [''out''] 1 True False collision_state)) =
     [Skipped [''src'', ''f''], Copied [''src'', ''h''] [''out'', ''h''] [4]]"
    by (simp add: eval_simps collision_state_def collision_fs_def)
  have o: "out collision_state = []" by (simp add: collision_state_def)
  from f1 have e1: "flatten_dir [''src''] [''out''] 1 True False collision_state =
      (Inr (1, 1), snd (flatten_dir [''src''] [''out''] 1 True False collision_state))"
    by (simp add: prod_eq_iff)
  from f2 have e2: "flatten_dir [''src''] [''out''] 1 False False collision_state =
      (Inr (1, 1), snd (flatten_dir [''src''] [''out''] 1 False False collision_state))"
    by (simp add: prod_eq_iff)
  note t = verbose_changes_output_only [OF e1 e2]
  from t have "fs (snd (flatten_dir [''src''] [''out''] 1 True False collision_state)) =
     fs (snd (flatten_dir [''src''] [''out''] 1 False False collision_state))" by blast
  moreover from t o have "out (snd (flatten_dir [''src''] [''out''] 1 False False collision_state)) = []"
    by simp
  moreover from t have "out (snd (flatten_dir [''src''] [''out''] 1 True False collision_state)) =
      out collision_state @ map (\<lambda>ev. [''out''] @ [name (event_path ev)])
        (filter is_copied (new_events collision_state
           (snd (flatten_dir [''src''] [''out''] 1 True False collision_state))))"
    by blast
  then have "out (snd (flatten_dir [''src''] [''out''] 1 True False collision_state)) = [[''out'', ''h'']]"
    unfolding n o by (simp add: name_def)
  ultimately show ?thesis using f1 f2 n by blast
qed

subsection \<open>The files of a tree\<close>

lemma files_within_unfold:
  "files_within f d r =
     (if r < 0 then []
      else case f d of
        Some (Dir ns) \<Rightarrow> concat (map (entry_files f r) (map (\<lambda>n. d @ [n]) ns))
      | _ \<Rightarrow> [])"
  by (subst files_within.simps)
    (auto simp: entry_files_def comp_def split: option.splits node.splits intro!: arg_cong [where f = concat])

lemma planned_is_within:
  "\<not> prefix d outdir \<Longrightarrow> planned_files f outdir d r = files_within f d r"
proof (induction f outdir d r rule: planned_files.induct)
  case (1 f outdir d r)
  from "1.prems" have ne: "d \<noteq> outdir" by auto
  show ?case
  proof (cases "r < 0")
    case True
    then show ?thesis by (simp add: planned_files.simps files_within.simps)
  next
    case False
    show ?thesis
    proof (cases "f d")
      case None
      with False ne show ?thesis by (simp add: planned_files_unfold [of _ _ d] files_within_unfold [of _ d])
    next
      case (Some nd)
      show ?thesis
      proof (cases nd)
        case (File rd bs)
        with Some False ne show ?thesis
          by (simp add: planned_files_unfold [of _ _ d] files_within_unfold [of _ d])
      next
        case (Dir ns)
        have "planned_entry f outdir r (d @ [n]) = entry_files f r (d @ [n])" if n: "n \<in> set ns" for n
        proof (cases "f (d @ [n])")
          case None
          then show ?thesis by (simp add: planned_entry_def entry_files_def)
        next
          case (Some c)
          note c = Some
          show ?thesis
          proof (cases c)
            case (File rd bs)
            with c show ?thesis by (simp add: planned_entry_def entry_files_def)
          next
            case (Dir ms)
            have "\<not> prefix (d @ [n]) outdir" using "1.prems" by (auto simp: prefix_def)
            from "1.IH" [OF _ \<open>f d = Some nd\<close> \<open>nd = Dir ns\<close> n c Dir this] False ne c Dir
            show ?thesis by (simp add: planned_entry_def entry_files_def)
          qed
        qed
        with Some Dir False ne show ?thesis
          by (simp add: planned_files_unfold [of _ _ d] files_within_unfold [of _ d] cong: map_cong)
      qed
    qed
  qed
qed

lemma is_dir_iff: "is_dir s p \<longleftrightarrow> (\<exists>ns. fs s p = Some (Dir ns))"
  by (auto simp: is_dir_def split: option.splits node.splits)

lemma is_file_iff: "is_file s p \<longleftrightarrow> (\<exists>rd bs. fs s p = Some (File rd bs))"
  by (auto simp: is_file_def split: option.splits node.splits)

lemma iterdir_Inr: "iterdir s d = Inr ps \<longleftrightarrow> (\<exists>ns. fs s d = Some (Dir ns) \<and> ps = map (\<lambda>n. d @ [n]) ns)"
  by (auto simp: iterdir_def split: option.splits node.splits)

lemma file_at_depth_0:
  "file_at_depth s d 0 p \<longleftrightarrow>
     (\<exists>ns n. fs s d = Some (Dir ns) \<and> n \<in> set ns \<and> p = d @ [n] \<and> is_file s p)"
proof (cases "iterdir s d")
  case (Inl e)
  then have "\<nexists>ns. fs s d = Some (Dir ns)"
    by (auto simp: iterdir_def split: option.splits node.splits)
  with Inl show ?thesis by simp
next
  case (Inr ps)
  then obtain ns where "fs s d = Some (Dir ns)" "ps = map (\<lambda>n. d @ [n]) ns"
    by (auto simp: iterdir_Inr)
  with Inr show ?thesis by auto
qed

lemma file_at_depth_Suc:
  "file_at_depth s d (Suc k) p \<longleftrightarrow>
     (\<exists>ns n. fs s d = Some (Dir ns) \<and> n \<in> set ns \<and> is_dir s (d @ [n]) \<and>
        file_at_depth s (d @ [n]) k p)"
proof (cases "iterdir s d")
  case (Inl e)
  then have "\<nexists>ns. fs s d = Some (Dir ns)"
    by (auto simp: iterdir_def split: option.splits node.splits)
  with Inl show ?thesis by simp
next
  case (Inr ps)
  then obtain ns where "fs s d = Some (Dir ns)" "ps = map (\<lambda>n. d @ [n]) ns"
    by (auto simp: iterdir_Inr)
  with Inr show ?thesis by (auto simp: list_ex_iff)
qed

declare file_at_depth.simps [simp del]

lemma file_at_depth_length:
  "file_at_depth s d k p \<Longrightarrow> length p = length d + k + 1"
proof (induction k arbitrary: d)
  case 0
  then show ?case by (auto simp: file_at_depth_0)
next
  case (Suc k)
  then obtain n where "file_at_depth s (d @ [n]) k p"
    by (auto simp: file_at_depth_Suc)
  with Suc.IH [of "d @ [n]"] show ?case by simp
qed

lemma file_at_depth_below:
  "file_at_depth s d k p \<Longrightarrow> strict_prefix d p"
proof (induction k arbitrary: d)
  case 0
  then show ?case by (auto simp: file_at_depth_0 strict_prefix_def)
next
  case (Suc k)
  then obtain n where "file_at_depth s (d @ [n]) k p"
    by (auto simp: file_at_depth_Suc)
  with Suc.IH [of "d @ [n]"] have "strict_prefix (d @ [n]) p" by simp
  then show ?case by (auto simp: strict_prefix_def prefix_def)
qed

lemma files_within_depth:
  "p \<in> set (files_within (fs s) d r) \<longleftrightarrow> (\<exists>k. int k \<le> r \<and> file_at_depth s d k p)"
proof (induction "fs s" d r arbitrary: p rule: files_within.induct)
  case (1 d r)
  show ?case
  proof (cases "r < 0")
    case True
    then show ?thesis by (simp add: files_within.simps)
  next
    case False
    show ?thesis
    proof (cases "\<exists>ns. fs s d = Some (Dir ns)")
      case nd: False
      have "\<not> file_at_depth s d k p" for k
        using nd by (cases k) (auto simp: file_at_depth_0 file_at_depth_Suc)
      moreover have "files_within (fs s) d r = []"
        using nd by (cases "fs s d"; cases "the (fs s d)") (auto simp: files_within_unfold [of _ d])
      ultimately show ?thesis by simp
    next
      case True
      then obtain ns where ns: "fs s d = Some (Dir ns)" by auto
      have sub: "p \<in> set (files_within (fs s) (d @ [n]) (r - 1)) \<longleftrightarrow>
            (\<exists>k. int k \<le> r - 1 \<and> file_at_depth s (d @ [n]) k p)"
        if "n \<in> set ns" "fs s (d @ [n]) = Some (Dir ms)" for n ms
        using "1.hyps" [OF False ns refl that(1) that(2) refl] .
      have L: "p \<in> set (files_within (fs s) d r) \<longleftrightarrow>
          (\<exists>n \<in> set ns. p \<in> set (entry_files (fs s) r (d @ [n])))"
        using ns False by (auto simp: files_within_unfold [of _ d])
      show ?thesis
      proof
        assume "p \<in> set (files_within (fs s) d r)"
        with L obtain n where n: "n \<in> set ns" "p \<in> set (entry_files (fs s) r (d @ [n]))" by auto
        show "\<exists>k. int k \<le> r \<and> file_at_depth s d k p"
        proof (cases "fs s (d @ [n])")
          case None
          with n show ?thesis by (simp add: entry_files_def)
        next
          case (Some c)
          note c = Some
          show ?thesis
          proof (cases c)
            case (File rd bs)
            with c n have "p = d @ [n]" by (simp add: entry_files_def)
            with c File n(1) ns have "file_at_depth s d 0 p"
              by (auto simp: file_at_depth_0 is_file_iff)
            with False show ?thesis by (intro exI [of _ 0]) simp
          next
            case (Dir ms)
            with c n have "p \<in> set (files_within (fs s) (d @ [n]) (r - 1))"
              by (simp add: entry_files_def)
            with sub [OF n(1) c [unfolded Dir]] obtain k where
              k: "int k \<le> r - 1" "file_at_depth s (d @ [n]) k p" by auto
            with n(1) c Dir ns have "file_at_depth s d (Suc k) p"
              by (auto simp: file_at_depth_Suc is_dir_iff)
            with k(1) show ?thesis by (intro exI [of _ "Suc k"]) simp
          qed
        qed
      next
        assume "\<exists>k. int k \<le> r \<and> file_at_depth s d k p"
        then obtain k where k: "int k \<le> r" "file_at_depth s d k p" by auto
        show "p \<in> set (files_within (fs s) d r)"
        proof (cases k)
          case 0
          with k ns obtain n rd bs where n: "n \<in> set ns" "p = d @ [n]" "fs s (d @ [n]) = Some (File rd bs)"
            by (auto simp: file_at_depth_0 is_file_iff)
          then have "p \<in> set (entry_files (fs s) r (d @ [n]))" by (simp add: entry_files_def)
          with n(1) show ?thesis unfolding L by blast
        next
          case (Suc k')
          with k ns obtain n ms where n: "n \<in> set ns" "fs s (d @ [n]) = Some (Dir ms)"
            "file_at_depth s (d @ [n]) k' p" by (auto simp: file_at_depth_Suc is_dir_iff)
          from k(1) Suc have "int k' \<le> r - 1" by simp
          with sub [OF n(1,2)] n(3) have "p \<in> set (files_within (fs s) (d @ [n]) (r - 1))" by blast
          with n(2) have "p \<in> set (entry_files (fs s) r (d @ [n]))" by (simp add: entry_files_def)
          with n(1) show ?thesis unfolding L by blast
        qed
      qed
    qed
  qed
qed

lemma files_within_below:
  assumes "p \<in> set (files_within f d r)"
  shows "strict_prefix d p"
proof -
  from assms have "p \<in> set (files_within (fs \<lparr>fs = f, out = [], trace = []\<rparr>) d r)" by simp
  then obtain k where "file_at_depth \<lparr>fs = f, out = [], trace = []\<rparr> d k p"
    unfolding files_within_depth by auto
  then show ?thesis by (rule file_at_depth_below)
qed

lemma entry_files_below:
  assumes "p \<in> set (entry_files f r q)"
  shows "prefix q p"
proof (cases "f q")
  case None
  with assms show ?thesis by (simp add: entry_files_def)
next
  case (Some c)
  with assms files_within_below [of p f q "r - 1"] show ?thesis
    by (cases c) (auto simp: entry_files_def strict_prefix_def)
qed

lemma distinct_concat_map:
  assumes "distinct xs" and "\<And>x. x \<in> set xs \<Longrightarrow> distinct (g x)"
    and "\<And>x y. x \<in> set xs \<Longrightarrow> y \<in> set xs \<Longrightarrow> x \<noteq> y \<Longrightarrow> set (g x) \<inter> set (g y) = {}"
  shows "distinct (concat (map g xs))"
  using assms
proof (induction xs)
  case Nil
  show ?case by simp
next
  case (Cons x xs)
  have "distinct (concat (map g xs))" using Cons by (intro Cons.IH) auto
  moreover have "distinct (g x)" using Cons.prems(2) by simp
  moreover have "set (g x) \<inter> set (concat (map g xs)) = {}"
    using Cons.prems(1,3) by fastforce
  ultimately show ?case by simp
qed

lemma files_within_distinct:
  "wf_fs f \<Longrightarrow> distinct (files_within f d r)"
proof (induction f d r rule: files_within.induct)
  case (1 f d r)
  show ?case
  proof (cases "r < 0")
    case True
    then show ?thesis by (simp add: files_within.simps)
  next
    case False
    show ?thesis
    proof (cases "f d")
      case None
      with False show ?thesis by (simp add: files_within_unfold [of _ d])
    next
      case (Some nd)
      show ?thesis
      proof (cases nd)
        case (File rd bs)
        with Some False show ?thesis by (simp add: files_within_unfold [of _ d])
      next
        case (Dir ns)
        from "1.prems" Some Dir have dn: "distinct ns" by (auto simp: wf_fs_def)
        have "distinct (concat (map (\<lambda>n. entry_files f r (d @ [n])) ns))"
        proof (rule distinct_concat_map [OF dn])
          fix n assume n: "n \<in> set ns"
          show "distinct (entry_files f r (d @ [n]))"
          proof (cases "f (d @ [n])")
            case None
            then show ?thesis by (simp add: entry_files_def)
          next
            case (Some c)
            note c = Some
            show ?thesis
            proof (cases c)
              case (File rd bs)
              with c show ?thesis by (simp add: entry_files_def)
            next
              case (Dir ms)
              from "1.IH" [OF False \<open>f d = Some nd\<close> \<open>nd = Dir ns\<close> n c Dir "1.prems"] c Dir
              show ?thesis by (simp add: entry_files_def)
            qed
          qed
        next
          fix n m assume "n \<in> set ns" "m \<in> set ns" "n \<noteq> m"
          show "set (entry_files f r (d @ [n])) \<inter> set (entry_files f r (d @ [m])) = {}"
          proof (rule ccontr)
            assume "set (entry_files f r (d @ [n])) \<inter> set (entry_files f r (d @ [m])) \<noteq> {}"
            then obtain p where "p \<in> set (entry_files f r (d @ [n]))" "p \<in> set (entry_files f r (d @ [m]))"
              by auto
            then have "prefix (d @ [n]) p" "prefix (d @ [m]) p" by (auto dest: entry_files_below)
            then have "prefix (d @ [n]) (d @ [m]) \<or> prefix (d @ [m]) (d @ [n])"
              by (rule prefix_same_cases)
            with \<open>n \<noteq> m\<close> show False by auto
          qed
        qed
        with Some Dir False show ?thesis
          by (simp add: files_within_unfold [of _ d] comp_def)
      qed
    qed
  qed
qed

subsection \<open>What the traversal visits\<close>

lemma flatten_visits_plan:
  assumes wf: "wf_fs (fs s)" and d: "is_dir s indir"
    and run: "flatten_dir indir outdir r v ow s = (Inr totals, s')"
  shows "map event_path (new_events s s') = planned_files (fs s) outdir indir r"
proof -
  obtain nf nb where t: "totals = (nf, nb)" by (cases totals) auto
  from flatten_eq_run_files(1) [OF wf d, of outdir r v ow] run
  have "run_files (planned_files (fs s) outdir indir r) outdir v ow (0, 0) s = (Inr totals, s')" by simp
  from run_files_events [OF this] t obtain evs where
    "trace s' = trace s @ evs" "map event_path evs = take (length evs) (planned_files (fs s) outdir indir r)"
    "length evs = length (planned_files (fs s) outdir indir r)"
    by auto
  then show ?thesis by (simp add: new_events_append)
qed

lemma wf_tree_fs: "wf_fs tree_fs"
  by (auto simp: wf_fs_def tree_fs_def split: if_splits)

subsection \<open>What the traversal leaves alone\<close>

lemma copy_target:
  assumes "shutil_copy f p (outdir @ [name p]) = Inr (dst, bs, f')"
  shows "dst = (if (\<exists>ns. f (outdir @ [name p]) = Some (Dir ns)) then outdir @ [name p, name p]
               else outdir @ [name p])"
proof (cases "f (outdir @ [name p])")
  case None
  with shutil_copy_Inr(4) [OF assms] show ?thesis by simp
next
  case (Some c)
  with shutil_copy_Inr(4) [OF assms] show ?thesis by (cases c) auto
qed

lemma file_step_frame:
  assumes "file_step outdir v ow p s = (x, s')"
  shows "\<exists>ev. trace s' = trace s @ [ev] \<and>
     (\<forall>q. \<not> prefix outdir q \<longrightarrow> fs s' q = fs s q) \<and>
     (\<forall>q rd bs. fs s q = Some (File rd bs) \<longrightarrow> (is_copied ev \<longrightarrow> name q \<noteq> name (event_path ev)) \<longrightarrow>
        fs s' q = Some (File rd bs))"
proof (cases x)
  case (Inl e)
  from file_step_Inl(3) [OF assms [unfolded Inl]] show ?thesis
    by (intro exI [of _ "Failed p e"]) simp
next
  case (Inr c)
  obtain df db where c: "c = (df, db)" by (cases c) auto
  from assms [unfolded Inr c] show ?thesis
  proof (cases rule: file_step_Inr)
    case skip
    then show ?thesis by (intro exI [of _ "Skipped p"]) simp
  next
    case (copy dst bs m)
    from copy_target [OF copy(2)]
    have dst: "dst = outdir @ [name p, name p] \<or> dst = outdir @ [name p]" by (auto split: if_splits)
    then have pre: "prefix outdir dst" "prefix outdir (butlast dst)" and nm: "name dst = name p"
      by (auto simp: butlast_append name_def)
    have 1: "fs s' q = fs s q" if "\<not> prefix outdir q" for q
    proof -
      from that pre have "q \<noteq> dst" "q \<noteq> butlast dst" by auto
      with copy(5) show ?thesis by (simp add: write_file_other)
    qed
    have 2: "fs s' q = Some (File rd bs')" if "fs s q = Some (File rd bs')" "name q \<noteq> name p" for q rd bs'
    proof -
      from that(2) nm have "q \<noteq> dst" by auto
      with that(1) copy(5) show ?thesis by (simp add: write_file_file)
    qed
    from copy(5) 1 2 show ?thesis by (intro exI [of _ "Copied p dst bs"]) simp
  qed
qed

lemma run_files_frame:
  "run_files L outdir v ow acc s = (x, s') \<Longrightarrow>
   (\<forall>q. \<not> prefix outdir q \<longrightarrow> fs s' q = fs s q) \<and>
   (\<forall>q rd bs. fs s q = Some (File rd bs) \<longrightarrow>
      name q \<notin> set (map (\<lambda>ev. name (event_path ev)) (filter is_copied (new_events s s'))) \<longrightarrow>
      fs s' q = Some (File rd bs))"
proof (induction L arbitrary: acc s)
  case Nil
  then show ?case by (cases acc) auto
next
  case (Cons p L)
  obtain a b where acc: "acc = (a, b)" by (cases acc) auto
  obtain y s1 where st: "file_step outdir v ow p s = (y, s1)"
    by (cases "file_step outdir v ow p s") auto
  from file_step_frame [OF st] obtain ev where
    ev: "trace s1 = trace s @ [ev]"
      "\<forall>q. \<not> prefix outdir q \<longrightarrow> fs s1 q = fs s q"
      "\<forall>q rd bs. fs s q = Some (File rd bs) \<longrightarrow> (is_copied ev \<longrightarrow> name q \<noteq> name (event_path ev)) \<longrightarrow>
        fs s1 q = Some (File rd bs)"
    by blast
  show ?case
  proof (cases y)
    case (Inl e)
    with Cons.prems st acc have "s' = s1" by simp
    with ev show ?thesis by (auto simp: new_events_def)
  next
    case (Inr c)
    obtain df db where "c = (df, db)" by (cases c) auto
    with Cons.prems st acc Inr have run: "run_files L outdir v ow (a + df, b + db) s1 = (x, s')" by simp
    from run_files_events [OF run] obtain evs where evs: "trace s' = trace s1 @ evs" by blast
    with ev(1) have ne: "new_events s s' = ev # evs" "new_events s1 s' = evs"
      by (simp_all add: new_events_def)
    from Cons.IH [OF run] have
      ih: "\<forall>q. \<not> prefix outdir q \<longrightarrow> fs s' q = fs s1 q"
        "\<forall>q rd bs. fs s1 q = Some (File rd bs) \<longrightarrow>
          name q \<notin> set (map (\<lambda>ev. name (event_path ev)) (filter is_copied evs)) \<longrightarrow>
          fs s' q = Some (File rd bs)"
      unfolding ne by auto
    show ?thesis
    proof (intro conjI allI impI)
      fix q assume "\<not> prefix outdir q"
      with ev(2) ih(1) show "fs s' q = fs s q" by simp
    next
      fix q rd bs
      assume q: "fs s q = Some (File rd bs)"
        and n: "name q \<notin> set (map (\<lambda>ev. name (event_path ev)) (filter is_copied (new_events s s')))"
      from n have "is_copied ev \<longrightarrow> name q \<noteq> name (event_path ev)"
        and n': "name q \<notin> set (map (\<lambda>ev. name (event_path ev)) (filter is_copied evs))"
        unfolding ne by auto
      with ev(3) q have "fs s1 q = Some (File rd bs)" by blast
      with ih(2) n' show "fs s' q = Some (File rd bs)" by blast
    qed
  qed
qed

subsection \<open>Bounds on the totals\<close>

lemma subseq_concat_map:
  "(\<And>x. x \<in> set xs \<Longrightarrow> subseq (g x) (h x)) \<Longrightarrow> subseq (concat (map g xs)) (concat (map h xs))"
proof (induction xs)
  case Nil
  show ?case by simp
next
  case (Cons x xs)
  then show ?case by (auto intro: list_emb_append_mono)
qed

lemma planned_subseq_within:
  "subseq (planned_files f outdir d r) (files_within f d r)"
proof (induction f outdir d r rule: planned_files.induct)
  case (1 f outdir d r)
  show ?case
  proof (cases "r < 0 \<or> d = outdir")
    case True
    then show ?thesis by (simp add: planned_files.simps)
  next
    case False
    show ?thesis
    proof (cases "f d")
      case None
      with False show ?thesis by (simp add: planned_files_unfold [of _ _ d] files_within_unfold [of _ d])
    next
      case (Some nd)
      show ?thesis
      proof (cases nd)
        case (File rd bs)
        with Some False show ?thesis
          by (simp add: planned_files_unfold [of _ _ d] files_within_unfold [of _ d])
      next
        case (Dir ns)
        have "subseq (planned_entry f outdir r (d @ [n])) (entry_files f r (d @ [n]))"
          if n: "n \<in> set ns" for n
        proof (cases "f (d @ [n])")
          case None
          then show ?thesis by (simp add: planned_entry_def entry_files_def)
        next
          case (Some c)
          note c = Some
          show ?thesis
          proof (cases c)
            case (File rd bs)
            with c show ?thesis by (simp add: planned_entry_def entry_files_def)
          next
            case (Dir ms)
            from "1.IH" [OF False \<open>f d = Some nd\<close> \<open>nd = Dir ns\<close> n c Dir] c Dir
            show ?thesis by (simp add: planned_entry_def entry_files_def)
          qed
        qed
        then have "subseq (concat (map (\<lambda>n. planned_entry f outdir r (d @ [n])) ns))
            (concat (map (\<lambda>n. entry_files f r (d @ [n])) ns))"
          by (rule subseq_concat_map)
        with Some Dir False show ?thesis
          by (simp add: planned_files_unfold [of _ _ d] files_within_unfold [of _ d] comp_def)
      qed
    qed
  qed
qed

lemma subseq_sum_le:
  fixes g :: "'a \<Rightarrow> int"
  assumes "subseq xs ys" and "\<And>y. 0 \<le> g y"
  shows "sum_list (map g xs) \<le> sum_list (map g ys)"
  using assms(1)
proof (induction rule: list_emb.induct)
  case (list_emb_Nil ys)
  have "0 \<le> sum_list (map g ys)" by (rule sum_list_nonneg) (auto simp: assms(2))
  then show ?case by simp
next
  case (list_emb_Cons xs ys y)
  with assms(2) [of y] show ?case by simp
next
  case (list_emb_Cons2 x y xs ys)
  then show ?case by simp
qed

lemma file_size_nonneg: "0 \<le> file_size f p"
  by (simp add: file_size_def split: option.splits node.splits)

lemma planned_files_facts:
  "p \<in> set (planned_files f outdir d r) \<Longrightarrow> p \<noteq> [] \<and> butlast p \<noteq> outdir"
proof (induction f outdir d r rule: planned_files.induct)
  case (1 f outdir d r)
  show ?case
  proof (cases "r < 0 \<or> d = outdir")
    case True
    with "1.prems" show ?thesis by (simp add: planned_files.simps)
  next
    case False
    with "1.prems" obtain ns where ns: "f d = Some (Dir ns)"
      by (cases "f d"; cases "the (f d)") (auto simp: planned_files_unfold [of _ _ d])
    with "1.prems" False obtain n where n: "n \<in> set ns" "p \<in> set (planned_entry f outdir r (d @ [n]))"
      by (auto simp: planned_files_unfold [of _ _ d])
    show ?thesis
    proof (cases "f (d @ [n])")
      case None
      with n show ?thesis by (simp add: planned_entry_def)
    next
      case (Some c)
      note c = Some
      show ?thesis
      proof (cases c)
        case (File rd bs)
        with c n False show ?thesis by (auto simp: planned_entry_def)
      next
        case (Dir ms)
        with c n have "p \<in> set (planned_files f outdir (d @ [n]) (r - 1))"
          by (simp add: planned_entry_def)
        from "1.IH" [OF False ns refl n(1) c Dir this] show ?thesis .
      qed
    qed
  qed
qed

text \<open>Where a copy goes does not depend on when it is made, and no file is copied onto itself.\<close>

lemma run_files_copy_target:
  "run_files L outdir v ow acc s = (x, s') \<Longrightarrow> Copied p dst bs \<in> set (new_events s s') \<Longrightarrow>
   dst \<noteq> p \<and> (is_dir s (outdir @ [name p]) \<longrightarrow> dst = outdir @ [name p, name p])"
proof (induction L arbitrary: acc s)
  case Nil
  then show ?case by (cases acc) (auto simp: new_events_def)
next
  case (Cons p0 L)
  obtain a b where acc: "acc = (a, b)" by (cases acc) auto
  obtain y s1 where st: "file_step outdir v ow p0 s = (y, s1)"
    by (cases "file_step outdir v ow p0 s") auto
  note g = file_step_grows [OF st]
  show ?case
  proof (cases y)
    case (Inl e)
    with Cons.prems st acc have "s' = s1" by simp
    with file_step_Inl(3) [OF st [unfolded Inl]] Cons.prems(2) show ?thesis
      by (simp add: new_events_def)
  next
    case (Inr c)
    obtain df db where c: "c = (df, db)" by (cases c) auto
    with Cons.prems st acc Inr have run: "run_files L outdir v ow (a + df, b + db) s1 = (x, s')" by simp
    from run_files_events [OF run] obtain evs where evs: "trace s' = trace s1 @ evs" by blast
    from file_step_event [OF st] obtain ev where ev: "trace s1 = trace s @ [ev]" by blast
    from ev evs have ne: "new_events s s' = ev # evs" "new_events s1 s' = evs"
      by (simp_all add: new_events_def)
    from Cons.prems(2) ne consider (first) "ev = Copied p dst bs" | (later) "Copied p dst bs \<in> set (new_events s1 s')"
      by auto
    then show ?thesis
    proof cases
      case first
      from st [unfolded Inr c] show ?thesis
      proof (cases rule: file_step_Inr)
        case skip
        with ev first show ?thesis by simp
      next
        case (copy dst' bs' m')
        with ev first have eq: "p0 = p" "dst' = dst" "bs' = bs" by simp_all
        from shutil_copy_Inr(3) [OF copy(2)] copy_target [OF copy(2)] eq show ?thesis
          by (auto simp: is_dir_iff)
      qed
    next
      case later
      from Cons.IH [OF run later] grows_is_dir [OF g] show ?thesis by blast
    qed
  qed
qed

lemma write_file_file_back:
  assumes "write_file f dst m bs q = Some (File rd bs')" and "q \<noteq> dst"
  shows "f q = Some (File rd bs')"
proof (cases "q = butlast dst")
  case True
  with assms write_file_parent [of dst f m bs] show ?thesis
    by (cases "f (butlast dst)"; cases "the (f (butlast dst))") auto
next
  case False
  with assms show ?thesis by (simp add: write_file_other)
qed

text \<open>A file that is copied has the bytes it had when the run began.\<close>

lemma run_files_sources_intact:
  "run_files L outdir v ow acc s = (Inr c, s') \<Longrightarrow> \<forall>p \<in> set L. p \<noteq> [] \<and> butlast p \<noteq> outdir \<Longrightarrow>
   Copied p dst bs \<in> set (new_events s s') \<Longrightarrow> \<exists>w. fs s p = Some (File (Mode True w) bs)"
proof (induction L arbitrary: acc s)
  case Nil
  then show ?case by (cases acc) (auto simp: new_events_def)
next
  case (Cons p0 L)
  obtain a b where acc: "acc = (a, b)" by (cases acc) auto
  obtain y s1 where st: "file_step outdir v ow p0 s = (y, s1)"
    by (cases "file_step outdir v ow p0 s") auto
  from Cons.prems(1) st acc obtain df db where y: "y = Inr (df, db)"
    by (cases y) auto
  with Cons.prems(1) st acc have run: "run_files L outdir v ow (a + df, b + db) s1 = (Inr c, s')" by simp
  from run_files_events [OF run] obtain evs where evs: "trace s' = trace s1 @ evs"
    "map event_path evs = take (length evs) L" by blast
  from file_step_event [OF st] obtain ev where ev: "trace s1 = trace s @ [ev]" by blast
  from ev evs have ne: "new_events s s' = ev # evs" "new_events s1 s' = evs"
    by (simp_all add: new_events_def)
  from Cons.prems(3) ne consider (first) "ev = Copied p dst bs" | (later) "Copied p dst bs \<in> set (new_events s1 s')"
    by auto
  then show ?case
  proof cases
    case first
    from st [unfolded y] show ?thesis
    proof (cases rule: file_step_Inr)
      case skip
      with ev first show ?thesis by simp
    next
      case (copy dst' bs' m')
      with ev first have eq: "p0 = p" "dst' = dst" "bs' = bs" by simp_all
      from shutil_copy_Inr(1) [OF copy(2)] eq show ?thesis by simp
    qed
  next
    case later
    from Cons.prems(2) have L: "\<forall>p \<in> set L. p \<noteq> [] \<and> butlast p \<noteq> outdir" by simp
    from Cons.IH [OF run L later] obtain w where s1p: "fs s1 p = Some (File (Mode True w) bs)" by blast
    from later ne(2) have "p \<in> set (map event_path evs)" by force
    with evs(2) have "p \<in> set L" by (metis in_set_takeD)
    with L have pb: "p \<noteq> []" "butlast p \<noteq> outdir" by auto
    from st [unfolded y] show ?thesis
    proof (cases rule: file_step_Inr)
      case skip
      with s1p show ?thesis by simp
    next
      case (copy dst0 bs0 m0)
      note t = copy_target [OF copy(2)]
      have "p \<noteq> dst0"
      proof
        assume eq: "p = dst0"
        show False
        proof (cases "\<exists>ns. fs s (outdir @ [name p0]) = Some (Dir ns)")
          case True
          with t eq have p: "p = outdir @ [name p0, name p0]" by simp
          then have np: "name p = name p0" by (simp add: name_def)
          from True have "is_dir s (outdir @ [name p0])" by (simp add: is_dir_iff)
          with file_step_grows [OF st] have "is_dir s1 (outdir @ [name p0])" by (rule grows_is_dir)
          with run_files_copy_target [OF run later] np p show False by simp
        next
          case False
          with t eq have "p = outdir @ [name p0]" by simp
          with pb(2) show False by simp
        qed
      qed
      with s1p copy(5) show ?thesis by (auto dest: write_file_file_back)
    qed
  qed
qed

lemma run_files_bytes_le:
  assumes run: "run_files L outdir v ow (0, 0) s = (Inr (nf, nb), s')"
    and L: "\<forall>p \<in> set L. p \<noteq> [] \<and> butlast p \<noteq> outdir"
  shows "nf \<le> int (length L) \<and> nb \<le> sum_list (map (file_size (fs s)) L) \<and>
     ((\<forall>ev \<in> set (new_events s s'). is_copied ev) \<longrightarrow>
        nf = int (length L) \<and> nb = sum_list (map (file_size (fs s)) L))"
proof -
  from run_files_events [OF run] obtain evs where
    evs: "trace s' = trace s @ evs" "map event_path evs = take (length evs) L"
      "length evs = length L" "nf = int (length (filter is_copied evs))"
      "nb = sum_list (map bytes_written evs)"
    by auto
  then have ne: "new_events s s' = evs" and paths: "map event_path evs = L"
    by (simp_all add: new_events_def)
  have b: "bytes_written ev \<le> file_size (fs s) (event_path ev) \<and>
      (is_copied ev \<longrightarrow> bytes_written ev = file_size (fs s) (event_path ev))" if "ev \<in> set evs" for ev
  proof (cases ev)
    case (Copied p dst bs)
    with that ne have "Copied p dst bs \<in> set (new_events s s')" by simp
    from run_files_sources_intact [OF run L this] Copied show ?thesis by (auto simp: file_size_def)
  qed (simp_all add: file_size_nonneg)
  have "sum_list (map bytes_written evs) \<le> sum_list (map (\<lambda>ev. file_size (fs s) (event_path ev)) evs)"
    using b by (intro sum_list_mono) auto
  also have "\<dots> = sum_list (map (file_size (fs s)) L)"
    unfolding paths [symmetric] by (simp add: comp_def)
  finally have 1: "nb \<le> sum_list (map (file_size (fs s)) L)" using evs(5) by simp
  have 2: "nf \<le> int (length L)"
    unfolding evs(4) evs(3) [symmetric] by simp
  have 3: "nf = int (length L) \<and> nb = sum_list (map (file_size (fs s)) L)"
    if all: "\<forall>ev \<in> set (new_events s s'). is_copied ev"
  proof
    from all ne have "filter is_copied evs = evs" by (simp add: filter_id_conv)
    with evs(3,4) show "nf = int (length L)" by simp
    have "sum_list (map bytes_written evs) = sum_list (map (\<lambda>ev. file_size (fs s) (event_path ev)) evs)"
      using b all ne by (intro arg_cong [where f = sum_list] map_cong) auto
    also have "\<dots> = sum_list (map (file_size (fs s)) L)"
      unfolding paths [symmetric] by (simp add: comp_def)
    finally show "nb = sum_list (map (file_size (fs s)) L)" using evs(5) by simp
  qed
  from 1 2 3 show ?thesis by blast
qed

text \<open>Files with different names whose targets are not there are all copied.\<close>

lemma run_files_all_copied:
  "run_files L outdir v ow acc s = (x, s') \<Longrightarrow> distinct (map name L) \<Longrightarrow>
   \<forall>p \<in> set L. \<not> exists_path s (outdir @ [name p]) \<Longrightarrow>
   \<forall>ev \<in> set (new_events s s'). \<not> is_failed ev \<longrightarrow> is_copied ev"
proof (induction L arbitrary: acc s)
  case Nil
  then show ?case by (cases acc) (auto simp: new_events_def)
next
  case (Cons p0 L)
  obtain a b where acc: "acc = (a, b)" by (cases acc) auto
  obtain y s1 where st: "file_step outdir v ow p0 s = (y, s1)"
    by (cases "file_step outdir v ow p0 s") auto
  from Cons.prems(3) have t0: "fs s (outdir @ [name p0]) = None" by (simp add: exists_path_def)
  show ?case
  proof (cases y)
    case (Inl e)
    with Cons.prems st acc have "s' = s1" by simp
    with file_step_Inl(3) [OF st [unfolded Inl]] show ?thesis by (simp add: new_events_def)
  next
    case (Inr c)
    obtain df db where c: "c = (df, db)" by (cases c) auto
    with Cons.prems st acc Inr have run: "run_files L outdir v ow (a + df, b + db) s1 = (x, s')" by simp
    from run_files_events [OF run] obtain evs where evs: "trace s' = trace s1 @ evs" by blast
    from st [unfolded Inr c] show ?thesis
    proof (cases rule: file_step_Inr)
      case skip
      with t0 show ?thesis by (simp add: exists_path_def)
    next
      case (copy dst bs m)
      from copy_target [OF copy(2)] t0 have dst: "dst = outdir @ [name p0]" by simp
      have "\<forall>p \<in> set L. \<not> exists_path s1 (outdir @ [name p])"
      proof
        fix p assume p: "p \<in> set L"
        with Cons.prems(2) have "name p \<noteq> name p0" by (force simp: image_iff)
        then have "outdir @ [name p] \<noteq> dst" "outdir @ [name p] \<noteq> butlast dst"
          using dst by auto
        with copy(5) have "fs s1 (outdir @ [name p]) = fs s (outdir @ [name p])"
          by (simp add: write_file_other)
        with Cons.prems(3) p show "\<not> exists_path s1 (outdir @ [name p])"
          by (simp add: exists_path_def)
      qed
      with Cons.IH [OF run] Cons.prems(2)
      have ih: "\<forall>ev \<in> set (new_events s1 s'). \<not> is_failed ev \<longrightarrow> is_copied ev" by simp
      from copy(5) evs have "new_events s s' = Copied p0 dst bs # evs" "new_events s1 s' = evs"
        by (simp_all add: new_events_def)
      with ih show ?thesis by simp
    qed
  qed
qed

subsection \<open>The events and the file system\<close>

text \<open>
  The trace is an honest account of what happened to the files: after a step, and after
  a run, the bytes at a path are those of the last copy that was written to it, and the
  bytes it had before if no copy was written to it.
\<close>

lemma file_bytes_write:
  "file_bytes (s\<lparr>fs := write_file (fs s) dst m bs, out := t, trace := u\<rparr>) q =
     (if q = dst then Some bs else file_bytes s q)"
proof (cases "q = dst")
  case True
  then show ?thesis by (simp add: file_bytes_def write_file_same)
next
  case False
  show ?thesis
  proof (cases "q = butlast dst")
    case True
    with False have "butlast dst \<noteq> dst" by simp
    from write_file_parent [OF this, of f m bs for f] True False show ?thesis
      by (auto simp: file_bytes_def split: option.splits node.splits)
  next
    case nb: False
    with False show ?thesis by (simp add: file_bytes_def write_file_other)
  qed
qed

lemma file_step_written:
  assumes "file_step outdir v ow p s = (x, s')"
  shows "\<exists>ev. trace s' = trace s @ [ev] \<and>
     (\<forall>q. file_bytes s' q = (case copy_to ev q of Some bs \<Rightarrow> Some bs | None \<Rightarrow> file_bytes s q))"
proof (cases x)
  case (Inl e)
  from file_step_Inl(3) [OF assms [unfolded Inl]] show ?thesis
    by (intro exI [of _ "Failed p e"]) (simp add: file_bytes_def)
next
  case (Inr c)
  obtain df db where c: "c = (df, db)" by (cases c) auto
  from assms [unfolded Inr c] show ?thesis
  proof (cases rule: file_step_Inr)
    case skip
    then show ?thesis by (intro exI [of _ "Skipped p"]) (simp add: file_bytes_def)
  next
    case (copy dst bs m)
    then show ?thesis by (intro exI [of _ "Copied p dst bs"]) (simp add: file_bytes_write)
  qed
qed

lemma run_files_written:
  "run_files L outdir v ow acc s = (x, s') \<Longrightarrow>
   file_bytes s' q = (case last_copy (new_events s s') q of Some bs \<Rightarrow> Some bs | None \<Rightarrow> file_bytes s q)"
proof (induction L arbitrary: acc s)
  case Nil
  then show ?case by (cases acc) (auto simp: new_events_def)
next
  case (Cons p L)
  obtain a b where acc: "acc = (a, b)" by (cases acc) auto
  obtain y s1 where st: "file_step outdir v ow p s = (y, s1)"
    by (cases "file_step outdir v ow p s") auto
  from file_step_written [OF st] obtain ev where
    ev: "trace s1 = trace s @ [ev]"
      "file_bytes s1 q = (case copy_to ev q of Some bs \<Rightarrow> Some bs | None \<Rightarrow> file_bytes s q)"
    by blast
  show ?case
  proof (cases y)
    case (Inl e)
    with Cons.prems st acc have "s' = s1" by simp
    with ev show ?thesis by (simp add: new_events_def)
  next
    case (Inr c)
    obtain df db where "c = (df, db)" by (cases c) auto
    with Cons.prems st acc Inr have run: "run_files L outdir v ow (a + df, b + db) s1 = (x, s')" by simp
    from run_files_events [OF run] obtain evs where evs: "trace s' = trace s1 @ evs" by blast
    with ev(1) have ne: "new_events s s' = ev # evs" "new_events s1 s' = evs"
      by (simp_all add: new_events_def)
    from Cons.IH [OF run] ev(2) show ?thesis
      unfolding ne by (simp split: option.splits)
  qed
qed

lemma flatten_written:
  assumes "flatten_dir indir outdir r v ow s = (x, s')"
  shows "file_bytes s' q =
     (case last_copy (new_events s s') q of Some bs \<Rightarrow> Some bs | None \<Rightarrow> file_bytes s q)"
proof (cases "is_dir s indir")
  case True
  from flatten_is_run(1) [OF True, of outdir r v ow] assms obtain L where
    "run_files L outdir v ow (0, 0) s = (x, s')" by auto
  then show ?thesis by (rule run_files_written)
next
  case False
  from assms flatten_not_dir [OF False, of outdir r v ow] have "s' = s"
    by (auto split: if_splits)
  then show ?thesis by (simp add: new_events_def)
qed

text \<open>A target that is no directory when the run begins is none when the copy is made.\<close>

lemma run_files_copy_target_plain:
  "run_files L outdir v ow acc s = (x, s') \<Longrightarrow> Copied p dst bs \<in> set (new_events s s') \<Longrightarrow>
   \<not> is_dir s (outdir @ [name p]) \<Longrightarrow> dst = outdir @ [name p]"
proof (induction L arbitrary: acc s)
  case Nil
  then show ?case by (cases acc) (auto simp: new_events_def)
next
  case (Cons p0 L)
  obtain a b where acc: "acc = (a, b)" by (cases acc) auto
  obtain y s1 where st: "file_step outdir v ow p0 s = (y, s1)"
    by (cases "file_step outdir v ow p0 s") auto
  note g = file_step_grows [OF st]
  show ?case
  proof (cases y)
    case (Inl e)
    with Cons.prems st acc have "s' = s1" by simp
    with file_step_Inl(3) [OF st [unfolded Inl]] Cons.prems(2) show ?thesis
      by (simp add: new_events_def)
  next
    case (Inr c)
    obtain df db where c: "c = (df, db)" by (cases c) auto
    with Cons.prems st acc Inr have run: "run_files L outdir v ow (a + df, b + db) s1 = (x, s')" by simp
    from run_files_events [OF run] obtain evs where evs: "trace s' = trace s1 @ evs" by blast
    from file_step_event [OF st] obtain ev where ev: "trace s1 = trace s @ [ev]" by blast
    from ev evs have ne: "new_events s s' = ev # evs" "new_events s1 s' = evs"
      by (simp_all add: new_events_def)
    from Cons.prems(2) ne consider (first) "ev = Copied p dst bs" | (later) "Copied p dst bs \<in> set (new_events s1 s')"
      by auto
    then show ?thesis
    proof cases
      case first
      from st [unfolded Inr c] show ?thesis
      proof (cases rule: file_step_Inr)
        case skip
        with ev first show ?thesis by simp
      next
        case (copy dst' bs' m')
        with ev first have eq: "p0 = p" "dst' = dst" "bs' = bs" by simp_all
        from copy_target [OF copy(2)] eq Cons.prems(3) show ?thesis
          by (auto simp: is_dir_iff)
      qed
    next
      case later
      from Cons.prems(3) grows_is_dir_back [OF g] have "\<not> is_dir s1 (outdir @ [name p])" by blast
      from Cons.IH [OF run later this] show ?thesis .
    qed
  qed
qed

text \<open>
  What a copy event of a traversal that returns says: the bytes are those the source had
  when the call began, and the target is \<open>outdir / name\<close>, or the file of that name inside
  it when \<open>outdir / name\<close> is a directory.
\<close>

lemma flatten_copy_event:
  assumes "flatten_dir indir outdir r v ow s = (Inr c, s')"
    and "Copied p dst bs \<in> set (new_events s s')"
  shows "file_bytes s p = Some bs"
    and "dst = (if is_dir s (outdir @ [name p]) then outdir @ [name p, name p] else outdir @ [name p])"
    and "dst \<noteq> p"
proof -
  have d: "is_dir s indir"
  proof (rule ccontr)
    assume n: "\<not> is_dir s indir"
    from assms(1) flatten_not_dir [OF n, of outdir r v ow] have "s' = s" by (auto split: if_splits)
    with assms(2) show False by (simp add: new_events_def)
  qed
  from flatten_is_run(1) [OF d, of outdir r v ow] assms(1) obtain L where
    run: "run_files L outdir v ow (0, 0) s = (Inr c, s')"
    and L: "\<forall>q \<in> set L. strict_prefix indir q \<and> butlast q \<noteq> outdir \<and> is_dir s (butlast q) \<and>
          (prefix indir outdir \<longrightarrow> \<not> strict_prefix outdir q)" by auto
  from L have L': "\<forall>p \<in> set L. p \<noteq> [] \<and> butlast p \<noteq> outdir" by auto
  from run_files_sources_intact [OF run L' assms(2)] show "file_bytes s p = Some bs"
    by (auto simp: file_bytes_def)
  from run_files_copy_target [OF run assms(2)] run_files_copy_target_plain [OF run assms(2)]
  show "dst = (if is_dir s (outdir @ [name p]) then outdir @ [name p, name p] else outdir @ [name p])"
    and "dst \<noteq> p" by auto
qed

lemma last_copy_Some:
  "last_copy evs q = Some bs \<Longrightarrow> \<exists>p. Copied p q bs \<in> set evs"
proof (induction evs)
  case Nil
  then show ?case by simp
next
  case (Cons ev evs)
  show ?case
  proof (cases "last_copy evs q")
    case None
    with Cons.prems have "copy_to ev q = Some bs" by simp
    then show ?thesis by (cases ev) (auto split: if_splits)
  next
    case (Some bs')
    with Cons show ?thesis by auto
  qed
qed

text \<open>Copies of files with different names do not overwrite one another.\<close>

lemma last_copy_distinct:
  assumes "distinct (map (\<lambda>ev. name (event_path ev)) evs)"
    and "\<forall>p dst bs. Copied p dst bs \<in> set evs \<longrightarrow> dst = outdir @ [name p]"
    and "Copied p dst bs \<in> set evs"
  shows "last_copy evs dst = Some bs"
  using assms
proof (induction evs)
  case Nil
  then show ?case by simp
next
  case (Cons ev evs)
  show ?case
  proof (cases "Copied p dst bs \<in> set evs")
    case True
    from Cons.prems(1) have 1: "distinct (map (\<lambda>ev. name (event_path ev)) evs)" by simp
    from Cons.prems(2) have 2: "\<forall>p dst bs. Copied p dst bs \<in> set evs \<longrightarrow> dst = outdir @ [name p]"
      by simp
    from Cons.IH [OF 1 2 True] show ?thesis by simp
  next
    case False
    with Cons.prems(3) have ev: "ev = Copied p dst bs" by simp
    with Cons.prems(2) have dst: "dst = outdir @ [name p]" by simp
    have "last_copy evs dst = None"
    proof (rule ccontr)
      assume "last_copy evs dst \<noteq> None"
      then obtain bs' where "last_copy evs dst = Some bs'" by auto
      from last_copy_Some [OF this] obtain p' where p': "Copied p' dst bs' \<in> set evs" by blast
      with Cons.prems(2) have "dst = outdir @ [name p']" by simp
      with dst have "name p' = name p" by simp
      moreover from p' have "name p' \<in> set (map (\<lambda>ev. name (event_path ev)) evs)" by force
      ultimately show False using Cons.prems(1) ev by simp
    qed
    with ev show ?thesis by simp
  qed
qed

lemma bytes_written_copied:
  "sum_list (map bytes_written evs) = sum_list (map bytes_written (filter is_copied evs))"
proof (induction evs)
  case Nil
  then show ?case by simp
next
  case (Cons ev evs)
  then show ?case by (cases ev) simp_all
qed

section \<open>The claims\<close>

subsection \<open>C1: the files within the recursion depth are visited, once each, and copied\<close>

text \<open>
  Claim C1. Let the destination be no directory of the source tree, and let the call
  return its totals (no copy has failed). Then the plain files the loop has reached,
  each of them skipped or copied, are the plain files at most \<open>recursions_left\<close>
  directory levels below \<open>indir\<close>, in the order of the listings: a plain file at depth
  \<open>k\<close> has been reached if and only if \<open>k \<le> recursions_left\<close>, nothing else has been
  reached, and no file has been reached twice. A file that has been copied is in the
  file system: the copy took the bytes the file had when the call began, and after the
  call every path holds the bytes of the last copy written to it, and the bytes it had
  before if no copy was written to it. If the files reached have different names and
  none of these names exists in \<open>outdir\<close>, every one of them has been copied, and
  afterwards \<open>outdir / name\<close> is a plain file with the bytes of the source. With a negative
  \<open>recursions_left\<close> the call returns \<open>(0, 0)\<close> and the state it was given. The file
  system is assumed well formed.
\<close>

theorem flatten_dir_visits_within_depth:
  assumes "wf_fs (fs s)" and "\<not> prefix indir outdir"
    and "flatten_dir indir outdir recursions_left verbose overwrite s = (Inr totals, s')"
  shows "distinct (map event_path (new_events s s')) \<and>
     map event_path (new_events s s') = files_within (fs s) indir recursions_left \<and>
     (\<forall>k p. file_at_depth s indir k p \<longrightarrow>
        (p \<in> set (map event_path (new_events s s')) \<longleftrightarrow> int k \<le> recursions_left)) \<and>
     (\<forall>p \<in> set (map event_path (new_events s s')). \<exists>k. file_at_depth s indir k p) \<and>
     (\<forall>ev \<in> set (new_events s s'). \<not> is_failed ev) \<and>
     (\<forall>p dst bs. Copied p dst bs \<in> set (new_events s s') \<longrightarrow>
        file_bytes s p = Some bs \<and> dst \<noteq> p \<and>
        dst = (if is_dir s (outdir @ [name p]) then outdir @ [name p, name p]
               else outdir @ [name p])) \<and>
     (\<forall>q. file_bytes s' q =
        (case last_copy (new_events s s') q of Some bs \<Rightarrow> Some bs | None \<Rightarrow> file_bytes s q)) \<and>
     (distinct (map name (map event_path (new_events s s'))) \<and>
      (\<forall>p \<in> set (map event_path (new_events s s')). \<not> exists_path s (outdir @ [name p])) \<longrightarrow>
        (\<forall>ev \<in> set (new_events s s'). is_copied ev) \<and>
        (\<forall>p \<in> set (files_within (fs s) indir recursions_left).
           is_file s p \<and> is_file s' (outdir @ [name p]) \<and>
           file_bytes s' (outdir @ [name p]) = file_bytes s p)) \<and>
     (recursions_left < 0 \<longrightarrow> totals = (0, 0) \<and> s' = s)"
proof -
  have neg: "recursions_left < 0 \<longrightarrow> totals = (0, 0) \<and> s' = s"
    using assms(3) by (auto simp: flatten_dir.simps)
  have vis: "map event_path (new_events s s') = files_within (fs s) indir recursions_left"
    and nofail: "\<forall>ev \<in> set (new_events s s'). \<not> is_failed ev"
  proof -
    show "map event_path (new_events s s') = files_within (fs s) indir recursions_left"
    proof (cases "is_dir s indir")
      case True
      from flatten_visits_plan [OF assms(1) True assms(3)] planned_is_within [OF assms(2)]
      show ?thesis by simp
    next
      case False
      from assms(2) have "indir \<noteq> outdir" by auto
      with assms(3) flatten_not_dir [OF False, of outdir recursions_left verbose overwrite]
      have "recursions_left < 0" "s' = s" by (auto split: if_splits)
      then show ?thesis by (simp add: new_events_def files_within.simps)
    qed
    show "\<forall>ev \<in> set (new_events s s'). \<not> is_failed ev"
    proof (cases "is_dir s indir")
      case True
      from flatten_events(3) [OF assms(3) True] show ?thesis by (auto split: prod.splits)
    next
      case False
      from assms(3) flatten_not_dir [OF False, of outdir recursions_left verbose overwrite]
      show ?thesis by (auto simp: new_events_def split: if_splits)
    qed
  qed
  have dis: "distinct (map event_path (new_events s s'))"
    unfolding vis using assms(1) by (rule files_within_distinct)
  have iff: "p \<in> set (map event_path (new_events s s')) \<longleftrightarrow> int k \<le> recursions_left"
    if k: "file_at_depth s indir k p" for k p
  proof
    assume "p \<in> set (map event_path (new_events s s'))"
    then obtain k' where k': "int k' \<le> recursions_left" "file_at_depth s indir k' p"
      unfolding vis files_within_depth by auto
    from file_at_depth_length [OF k] file_at_depth_length [OF k'(2)] have "k' = k" by simp
    with k'(1) show "int k \<le> recursions_left" by simp
  next
    assume "int k \<le> recursions_left"
    with k show "p \<in> set (map event_path (new_events s s'))"
      unfolding vis files_within_depth by auto
  qed
  have only: "\<forall>p \<in> set (map event_path (new_events s s')). \<exists>k. file_at_depth s indir k p"
    unfolding vis using files_within_depth [of _ s indir recursions_left] by blast
  have ev: "file_bytes s p = Some bs \<and> dst \<noteq> p \<and>
        dst = (if is_dir s (outdir @ [name p]) then outdir @ [name p, name p]
               else outdir @ [name p])"
    if "Copied p dst bs \<in> set (new_events s s')" for p dst bs
    using flatten_copy_event [OF assms(3) that] by blast
  have wr: "file_bytes s' q =
        (case last_copy (new_events s s') q of Some bs \<Rightarrow> Some bs | None \<Rightarrow> file_bytes s q)" for q
    using assms(3) by (rule flatten_written)
  have all: "(\<forall>ev \<in> set (new_events s s'). is_copied ev) \<and>
        (\<forall>p \<in> set (files_within (fs s) indir recursions_left).
           is_file s p \<and> is_file s' (outdir @ [name p]) \<and>
           file_bytes s' (outdir @ [name p]) = file_bytes s p)"
    if h: "distinct (map name (map event_path (new_events s s'))) \<and>
      (\<forall>p \<in> set (map event_path (new_events s s')). \<not> exists_path s (outdir @ [name p]))"
  proof
    show cp: "\<forall>ev \<in> set (new_events s s'). is_copied ev"
    proof (cases "is_dir s indir")
      case True
      from flatten_eq_run_files(1) [OF assms(1) True, of outdir recursions_left verbose overwrite] assms(3)
      have run: "run_files (planned_files (fs s) outdir indir recursions_left) outdir verbose overwrite (0, 0) s =
          (Inr totals, s')" by simp
      from flatten_visits_plan [OF assms(1) True assms(3)] h
      have "distinct (map name (planned_files (fs s) outdir indir recursions_left))"
        "\<forall>p \<in> set (planned_files (fs s) outdir indir recursions_left). \<not> exists_path s (outdir @ [name p])"
        by simp_all
      from run_files_all_copied [OF run this] nofail show ?thesis by blast
    next
      case False
      from assms(3) flatten_not_dir [OF False, of outdir recursions_left verbose overwrite]
      show ?thesis by (auto simp: new_events_def split: if_splits)
    qed
    from h have d: "distinct (map (\<lambda>ev. name (event_path ev)) (new_events s s'))"
      by (simp add: comp_def)
    have tg: "\<forall>p dst bs. Copied p dst bs \<in> set (new_events s s') \<longrightarrow> dst = outdir @ [name p]"
    proof (intro allI impI)
      fix p dst bs assume c: "Copied p dst bs \<in> set (new_events s s')"
      then have "p \<in> set (map event_path (new_events s s'))" by force
      with h have "\<not> exists_path s (outdir @ [name p])" by blast
      then have "\<not> is_dir s (outdir @ [name p])" by (auto simp: exists_path_def is_dir_iff)
      with ev [OF c] show "dst = outdir @ [name p]" by simp
    qed
    show "\<forall>p \<in> set (files_within (fs s) indir recursions_left).
           is_file s p \<and> is_file s' (outdir @ [name p]) \<and>
           file_bytes s' (outdir @ [name p]) = file_bytes s p"
    proof
      fix p assume "p \<in> set (files_within (fs s) indir recursions_left)"
      then have "p \<in> set (map event_path (new_events s s'))" by (simp add: vis)
      then obtain e where e: "e \<in> set (new_events s s')" "event_path e = p" by auto
      with cp obtain dst bs where c: "Copied p dst bs \<in> set (new_events s s')"
        by (cases e) auto
      from tg c have dst: "dst = outdir @ [name p]" by blast
      from ev [OF c] have src: "file_bytes s p = Some bs" by simp
      from last_copy_distinct [OF d tg c] wr [of dst]
      have "file_bytes s' dst = Some bs" by simp
      with src dst show "is_file s p \<and> is_file s' (outdir @ [name p]) \<and>
           file_bytes s' (outdir @ [name p]) = file_bytes s p"
        by (auto simp: file_bytes_def is_file_def split: option.splits node.splits)
    qed
  qed
  from dis vis iff only nofail ev wr all neg show ?thesis by blast
qed

theorem flatten_dir_visits_within_depth_witness:
  "wf_fs (fs tree_state) \<and> \<not> prefix [''root''] [''out''] \<and>
   fst (flatten_dir [''root''] [''out''] 1 False False tree_state) = Inr (2, 30) \<and>
   map event_path (new_events tree_state (snd (flatten_dir [''root''] [''out''] 1 False False tree_state))) =
     [[''root'', ''a.txt''], [''root'', ''sub'', ''b.txt'']] \<and>
   file_at_depth tree_state [''root''] (Suc 0) [''root'', ''sub'', ''b.txt''] \<and>
   [''root'', ''sub'', ''b.txt''] \<in> set (map event_path
     (new_events tree_state (snd (flatten_dir [''root''] [''out''] 1 False False tree_state)))) \<and>
   file_at_depth tree_state [''root''] (Suc (Suc 0)) [''root'', ''sub'', ''sub2'', ''c.txt''] \<and>
   [''root'', ''sub'', ''sub2'', ''c.txt''] \<notin> set (map event_path
     (new_events tree_state (snd (flatten_dir [''root''] [''out''] 1 False False tree_state)))) \<and>
   fs (snd (flatten_dir [''root''] [''out''] 1 False False tree_state)) [''out''] =
     Some (Dir [''a.txt'', ''b.txt'']) \<and>
   fs (snd (flatten_dir [''root''] [''out''] 1 False False tree_state)) [''out'', ''a.txt''] =
     Some (File rw (replicate 10 0)) \<and>
   fs (snd (flatten_dir [''root''] [''out''] 1 False False tree_state)) [''out'', ''b.txt''] =
     Some (File rw (replicate 20 0)) \<and>
   fs (snd (flatten_dir [''root''] [''out''] 1 False False tree_state)) [''out'', ''c.txt''] = None \<and>
   fst (flatten_dir [''root''] [''out''] 0 False False tree_state) = Inr (1, 10) \<and>
   fs (snd (flatten_dir [''root''] [''out''] 0 False False tree_state)) [''out''] =
     Some (Dir [''a.txt'']) \<and>
   flatten_dir [''root''] [''out''] (- 1) False False tree_state = (Inr (0, 0), tree_state)"
proof -
  have w: "wf_fs (fs tree_state)" by (simp add: tree_state_def wf_tree_fs)
  have p: "\<not> prefix [''root''] [''out'']" by simp
  have f: "fst (flatten_dir [''root''] [''out''] 1 False False tree_state) = Inr (2, 30)"
    by (simp add: eval_simps tree_state_def tree_fs_def)
  then have e: "flatten_dir [''root''] [''out''] 1 False False tree_state =
      (Inr (2, 30), snd (flatten_dir [''root''] [''out''] 1 False False tree_state))"
    by (simp add: prod_eq_iff)
  have v: "map event_path (new_events tree_state (snd (flatten_dir [''root''] [''out''] 1 False False tree_state))) =
     [[''root'', ''a.txt''], [''root'', ''sub'', ''b.txt'']]"
    by (simp add: eval_simps tree_state_def tree_fs_def)
  have b: "file_at_depth tree_state [''root''] (Suc 0) [''root'', ''sub'', ''b.txt'']"
    by (simp add: file_at_depth.simps iterdir_def is_dir_def is_file_def tree_state_def tree_fs_def)
  have c: "file_at_depth tree_state [''root''] (Suc (Suc 0)) [''root'', ''sub'', ''sub2'', ''c.txt'']"
    by (simp add: file_at_depth.simps iterdir_def is_dir_def is_file_def tree_state_def tree_fs_def)
  have o: "fs (snd (flatten_dir [''root''] [''out''] 1 False False tree_state)) [''out''] =
     Some (Dir [''a.txt'', ''b.txt''])"
    by (simp add: eval_simps tree_state_def tree_fs_def)
  have oa: "fs (snd (flatten_dir [''root''] [''out''] 1 False False tree_state)) [''out'', ''a.txt''] =
     Some (File rw (replicate 10 0))"
    by (simp add: eval_simps tree_state_def tree_fs_def)
  have ob: "fs (snd (flatten_dir [''root''] [''out''] 1 False False tree_state)) [''out'', ''b.txt''] =
     Some (File rw (replicate 20 0))"
    by (simp add: eval_simps tree_state_def tree_fs_def)
  have oc: "fs (snd (flatten_dir [''root''] [''out''] 1 False False tree_state)) [''out'', ''c.txt''] = None"
    by (simp add: eval_simps tree_state_def tree_fs_def)
  have z: "fst (flatten_dir [''root''] [''out''] 0 False False tree_state) = Inr (1, 10)"
    by (simp add: eval_simps tree_state_def tree_fs_def)
  have zo: "fs (snd (flatten_dir [''root''] [''out''] 0 False False tree_state)) [''out''] =
     Some (Dir [''a.txt''])"
    by (simp add: eval_simps tree_state_def tree_fs_def)
  have m: "flatten_dir [''root''] [''out''] (- 1) False False tree_state = (Inr (0, 0), tree_state)"
    by (simp add: flatten_dir.simps)
  from flatten_dir_visits_within_depth [OF w p e]
  have t: "\<forall>k q. file_at_depth tree_state [''root''] k q \<longrightarrow>
      (q \<in> set (map event_path
         (new_events tree_state (snd (flatten_dir [''root''] [''out''] 1 False False tree_state)))) \<longleftrightarrow>
       int k \<le> 1)"
    by blast
  from t b have "[''root'', ''sub'', ''b.txt''] \<in> set (map event_path
     (new_events tree_state (snd (flatten_dir [''root''] [''out''] 1 False False tree_state))))"
    by simp
  moreover from t c have "[''root'', ''sub'', ''sub2'', ''c.txt''] \<notin> set (map event_path
     (new_events tree_state (snd (flatten_dir [''root''] [''out''] 1 False False tree_state))))"
    by simp
  ultimately show ?thesis using w p f v b c o oa ob oc z zo m by blast
qed

subsection \<open>C2: overwriting a target that is a directory\<close>

text \<open>
  Claim C2 says that with \<open>overwrite\<close> a file whose target \<open>outdir / name\<close> exists is
  copied so that the target has the bytes of the source. The code tests
  \<open>outfile.exists()\<close> only, and this holds of a directory too. Here \<open>src/n\<close> is a plain
  file and \<open>out/n\<close> an empty directory: the call returns \<open>(1, 3)\<close> and prints the line of
  \<open>out/n\<close>, but \<open>out/n\<close> is still a directory and the bytes are in a new file
  \<open>out/n/n\<close> inside it.
\<close>

theorem overwrite_directory_target:
  "fs dir_target_state [''src'', ''n''] = Some (File rw [1, 2, 3]) \<and>
   fs dir_target_state [''out'', ''n''] = Some (Dir []) \<and>
   fst (flatten_dir [''src''] [''out''] 1 True True dir_target_state) = Inr (1, 3) \<and>
   out (snd (flatten_dir [''src''] [''out''] 1 True True dir_target_state)) = [[''out'', ''n'']] \<and>
   fs (snd (flatten_dir [''src''] [''out''] 1 True True dir_target_state)) [''out''] =
     Some (Dir [''n'']) \<and>
   fs (snd (flatten_dir [''src''] [''out''] 1 True True dir_target_state)) [''out'', ''n''] =
     Some (Dir [''n'']) \<and>
   fs (snd (flatten_dir [''src''] [''out''] 1 True True dir_target_state)) [''out'', ''n'', ''n''] =
     Some (File rw [1, 2, 3])"
  by (simp add: eval_simps dir_target_state_def dir_target_fs_def)

subsection \<open>C3: source and destination are the same directory\<close>

text \<open>
  Claim C3. Called with the same directory as source and destination, \<open>flatten_dir\<close>
  returns \<open>(0, 0)\<close> at once, whatever the recursion budget and the two flags are: the
  state it returns is the state it was given, so nothing was copied, nothing was printed
  and no entry of the directory was looked at.
\<close>

theorem flatten_dir_same_directory:
  "flatten_dir d d recursions_left verbose overwrite s = (Inr (0, 0), s)"
  by (simp add: flatten_dir.simps)

subsection \<open>C4: the totals\<close>

text \<open>
  Claim C4. When the traversal returns its totals, \<open>n_files\<close> is the number of copies
  it made and \<open>n_bytes\<close> is the sum of the numbers of bytes those copies wrote (the
  size \<open>stat\<close> reports right after each copy), which is the sum of the sizes of the
  copied source files. The copies counted are copies in the file system: each of them
  took the bytes of a plain file that was there when the call began and wrote them to
  \<open>outdir / name\<close> (into it, if that is a directory), and after the call every path
  holds the bytes of the last copy written to it, and the bytes it had before if no copy
  was written to it. The loop over the entries of \<open>indir\<close> starts with the totals
  \<open>(0, 0)\<close>; both totals are non-negative, and the loop never lowers its running totals:
  whatever entries are left and whatever the totals are at that point, the totals it
  ends with are at least as large.
\<close>

theorem flatten_dir_totals:
  assumes "flatten_dir indir outdir recursions_left verbose overwrite s = (Inr (n_files, n_bytes), s')"
  shows "n_files = int (length (filter is_copied (new_events s s'))) \<and>
     n_bytes = sum_list (map bytes_written (new_events s s')) \<and>
     n_bytes = sum_list (map (\<lambda>ev. file_size (fs s) (event_path ev))
                 (filter is_copied (new_events s s'))) \<and>
     (\<forall>p dst bs. Copied p dst bs \<in> set (new_events s s') \<longrightarrow>
        file_bytes s p = Some bs \<and> dst \<noteq> p \<and>
        dst = (if is_dir s (outdir @ [name p]) then outdir @ [name p, name p]
               else outdir @ [name p])) \<and>
     (\<forall>q. file_bytes s' q =
        (case last_copy (new_events s s') q of Some bs \<Rightarrow> Some bs | None \<Rightarrow> file_bytes s q)) \<and>
     0 \<le> n_files \<and> 0 \<le> n_bytes \<and>
     (\<forall>paths. \<not> (recursions_left < 0 \<or> indir = outdir) \<and> iterdir s indir = Inr paths \<longrightarrow>
        flatten_loop paths outdir recursions_left verbose overwrite (0, 0) s =
          (Inr (n_files, n_bytes), s')) \<and>
     (\<forall>paths a b t a' b' t'.
        flatten_loop paths outdir recursions_left verbose overwrite (a, b) t = (Inr (a', b'), t') \<longrightarrow>
        a \<le> a' \<and> b \<le> b')"
proof -
  have start: "flatten_loop paths outdir recursions_left verbose overwrite (0, 0) s =
      (Inr (n_files, n_bytes), s')"
    if "\<not> (recursions_left < 0 \<or> indir = outdir) \<and> iterdir s indir = Inr paths" for paths
    using assms that by (simp add: flatten_dir.simps)
  have tot: "n_files = int (length (filter is_copied (new_events s s'))) \<and>
     n_bytes = sum_list (map bytes_written (new_events s s'))"
  proof (cases "is_dir s indir")
    case True
    from flatten_events(3) [OF assms True] show ?thesis by simp
  next
    case False
    from assms flatten_not_dir [OF False, of outdir recursions_left verbose overwrite]
    show ?thesis by (auto simp: new_events_def split: if_splits)
  qed
  have ev: "file_bytes s p = Some bs \<and> dst \<noteq> p \<and>
        dst = (if is_dir s (outdir @ [name p]) then outdir @ [name p, name p]
               else outdir @ [name p])"
    if "Copied p dst bs \<in> set (new_events s s')" for p dst bs
    using flatten_copy_event [OF assms that] by blast
  have one: "bytes_written e = file_size (fs s) (event_path e)"
    if h: "e \<in> set (new_events s s')" "is_copied e" for e
  proof -
    obtain p dst bs where e: "e = Copied p dst bs" "Copied p dst bs \<in> set (new_events s s')"
      by (cases e) (use h in auto)
    from ev [OF e(2)] have "file_bytes s p = Some bs" by simp
    then have "file_size (fs s) p = int (length bs)"
      by (auto simp: file_bytes_def file_size_def split: option.splits node.splits)
    with e(1) show ?thesis by simp
  qed
  have "sum_list (map bytes_written (filter is_copied (new_events s s'))) =
      sum_list (map (\<lambda>ev. file_size (fs s) (event_path ev)) (filter is_copied (new_events s s')))"
    using one by (intro arg_cong [where f = sum_list] map_cong) auto
  with tot bytes_written_copied [of "new_events s s'"]
  have sz: "n_bytes = sum_list (map (\<lambda>ev. file_size (fs s) (event_path ev))
                 (filter is_copied (new_events s s')))" by simp
  have wr: "file_bytes s' q =
        (case last_copy (new_events s s') q of Some bs \<Rightarrow> Some bs | None \<Rightarrow> file_bytes s q)" for q
    using assms by (rule flatten_written)
  from flatten_mono(1) [OF assms] have nn: "0 \<le> n_files \<and> 0 \<le> n_bytes" .
  have mono: "a \<le> a' \<and> b \<le> b'"
    if "flatten_loop paths outdir recursions_left verbose overwrite (a, b) t = (Inr (a', b'), t')"
    for paths a b t a' b' t'
    using flatten_mono(2) [OF that] by simp
  from tot sz ev wr nn start mono show ?thesis by blast
qed

theorem flatten_dir_totals_witness:
  "fst (flatten_dir [''root''] [''out''] 2 False False tree_state) = Inr (3, 60) \<and>
   (3::int) = int (length (filter is_copied
      (new_events tree_state (snd (flatten_dir [''root''] [''out''] 2 False False tree_state))))) \<and>
   (60::int) = sum_list (map bytes_written
      (new_events tree_state (snd (flatten_dir [''root''] [''out''] 2 False False tree_state)))) \<and>
   new_events tree_state (snd (flatten_dir [''root''] [''out''] 2 False False tree_state)) =
     [Copied [''root'', ''a.txt''] [''out'', ''a.txt''] (replicate 10 0),
      Copied [''root'', ''sub'', ''b.txt''] [''out'', ''b.txt''] (replicate 20 0),
      Copied [''root'', ''sub'', ''sub2'', ''c.txt''] [''out'', ''c.txt''] (replicate 30 0)] \<and>
   fs tree_state [''out''] = Some (Dir []) \<and>
   fs (snd (flatten_dir [''root''] [''out''] 2 False False tree_state)) [''out''] =
     Some (Dir [''a.txt'', ''b.txt'', ''c.txt'']) \<and>
   fs (snd (flatten_dir [''root''] [''out''] 2 False False tree_state)) [''out'', ''a.txt''] =
     Some (File rw (replicate 10 0)) \<and>
   fs (snd (flatten_dir [''root''] [''out''] 2 False False tree_state)) [''out'', ''b.txt''] =
     Some (File rw (replicate 20 0)) \<and>
   fs (snd (flatten_dir [''root''] [''out''] 2 False False tree_state)) [''out'', ''c.txt''] =
     Some (File rw (replicate 30 0))"
proof -
  have f: "fst (flatten_dir [''root''] [''out''] 2 False False tree_state) = Inr (3, 60)"
    by (simp add: eval_simps tree_state_def tree_fs_def)
  then have e: "flatten_dir [''root''] [''out''] 2 False False tree_state =
      (Inr (3, 60), snd (flatten_dir [''root''] [''out''] 2 False False tree_state))"
    by (simp add: prod_eq_iff)
  have n: "new_events tree_state (snd (flatten_dir [''root''] [''out''] 2 False False tree_state)) =
     [Copied [''root'', ''a.txt''] [''out'', ''a.txt''] (replicate 10 0),
      Copied [''root'', ''sub'', ''b.txt''] [''out'', ''b.txt''] (replicate 20 0),
      Copied [''root'', ''sub'', ''sub2'', ''c.txt''] [''out'', ''c.txt''] (replicate 30 0)]"
    by (simp add: eval_simps tree_state_def tree_fs_def)
  have o: "fs tree_state [''out''] = Some (Dir [])"
    by (simp add: tree_state_def tree_fs_def)
  have d: "fs (snd (flatten_dir [''root''] [''out''] 2 False False tree_state)) [''out''] =
     Some (Dir [''a.txt'', ''b.txt'', ''c.txt''])"
    by (simp add: eval_simps tree_state_def tree_fs_def)
  have a: "fs (snd (flatten_dir [''root''] [''out''] 2 False False tree_state)) [''out'', ''a.txt''] =
     Some (File rw (replicate 10 0))"
    by (simp add: eval_simps tree_state_def tree_fs_def)
  have b: "fs (snd (flatten_dir [''root''] [''out''] 2 False False tree_state)) [''out'', ''b.txt''] =
     Some (File rw (replicate 20 0))"
    by (simp add: eval_simps tree_state_def tree_fs_def)
  have c: "fs (snd (flatten_dir [''root''] [''out''] 2 False False tree_state)) [''out'', ''c.txt''] =
     Some (File rw (replicate 30 0))"
    by (simp add: eval_simps tree_state_def tree_fs_def)
  from flatten_dir_totals [OF e]
  have "(3::int) = int (length (filter is_copied
      (new_events tree_state (snd (flatten_dir [''root''] [''out''] 2 False False tree_state))))) \<and>
   (60::int) = sum_list (map bytes_written
      (new_events tree_state (snd (flatten_dir [''root''] [''out''] 2 False False tree_state))))"
    by blast
  with f n o d a b c show ?thesis by blast
qed

subsection \<open>C5: a copy that fails\<close>

text \<open>
  Claim C5. A copy that fails ends the traversal. In the loop, the entries after the
  file whose copy failed are not looked at: the loop returns the error, in the state in
  which it was raised, and the failed copy has not changed the file system. A failure in
  a subdirectory ends the loop of the directory above in the same way. So, for a whole
  call on a directory: if it returns an error, the failed copy is the last thing that
  happened and the error is the one that copy raised; if it returns totals, no copy has
  failed. A result is an error or a pair of totals, never both.
\<close>

theorem flatten_dir_failure_aborts:
  assumes "is_dir s indir"
    and "flatten_dir indir outdir recursions_left verbose overwrite s = (x, s')"
  shows "(case x of
        Inl e \<Rightarrow> new_events s s' \<noteq> [] \<and>
          last (new_events s s') = Failed (event_path (last (new_events s s'))) e \<and>
          (\<forall>ev \<in> set (butlast (new_events s s')). \<not> is_failed ev)
      | Inr totals \<Rightarrow> (\<forall>ev \<in> set (new_events s s'). \<not> is_failed ev)) \<and>
     (\<forall>path rest acc t e.
        is_file t path \<and> \<not> (exists_path t (outdir @ [name path]) \<and> \<not> overwrite) \<and>
        shutil_copy (fs t) path (outdir @ [name path]) = Inl e \<longrightarrow>
        fst (flatten_loop (path # rest) outdir recursions_left verbose overwrite acc t) = Inl e \<and>
        fs (snd (flatten_loop (path # rest) outdir recursions_left verbose overwrite acc t)) = fs t) \<and>
     (\<forall>path rest acc t e t'.
        is_dir t path \<and>
        flatten_dir path outdir (recursions_left - 1) verbose overwrite t = (Inl e, t') \<longrightarrow>
        flatten_loop (path # rest) outdir recursions_left verbose overwrite acc t = (Inl e, t'))"
proof (intro conjI allI impI)
  from flatten_events(3) [OF assms(2,1)]
  show "case x of
        Inl e \<Rightarrow> new_events s s' \<noteq> [] \<and>
          last (new_events s s') = Failed (event_path (last (new_events s s'))) e \<and>
          (\<forall>ev \<in> set (butlast (new_events s s')). \<not> is_failed ev)
      | Inr totals \<Rightarrow> (\<forall>ev \<in> set (new_events s s'). \<not> is_failed ev)"
    by (auto split: sum.splits)
next
  fix path rest acc t e
  assume a: "is_file t path \<and> \<not> (exists_path t (outdir @ [name path]) \<and> \<not> overwrite) \<and>
        shutil_copy (fs t) path (outdir @ [name path]) = Inl e"
  then have *: "flatten_loop (path # rest) outdir recursions_left verbose overwrite acc t =
     (Inl e, t\<lparr>out := out t @ (if verbose then [outdir @ [name path]] else []),
               trace := trace t @ [Failed path e]\<rparr>)"
    by (intro flatten_loop_copy_fails) auto
  show "fst (flatten_loop (path # rest) outdir recursions_left verbose overwrite acc t) = Inl e"
    by (simp add: *)
  show "fs (snd (flatten_loop (path # rest) outdir recursions_left verbose overwrite acc t)) = fs t"
    by (simp add: *)
next
  fix path rest acc t e t'
  assume "is_dir t path \<and>
        flatten_dir path outdir (recursions_left - 1) verbose overwrite t = (Inl e, t')"
  then show "flatten_loop (path # rest) outdir recursions_left verbose overwrite acc t = (Inl e, t')"
    by (intro flatten_loop_subdir_fails) auto
qed

theorem flatten_dir_failure_aborts_witness:
  "is_dir locked_state [''src''] \<and>
   fst (flatten_dir [''src''] [''out''] 1 False False locked_state) = Inl PermissionError \<and>
   new_events locked_state (snd (flatten_dir [''src''] [''out''] 1 False False locked_state)) =
     [Copied [''src'', ''a''] [''out'', ''a''] [1], Failed [''src'', ''b''] PermissionError] \<and>
   last (new_events locked_state (snd (flatten_dir [''src''] [''out''] 1 False False locked_state))) =
     Failed (event_path (last (new_events locked_state
       (snd (flatten_dir [''src''] [''out''] 1 False False locked_state))))) PermissionError \<and>
   fs (snd (flatten_dir [''src''] [''out''] 1 False False locked_state)) [''out'', ''c''] = None"
proof -
  have d: "is_dir locked_state [''src'']"
    by (simp add: is_dir_def locked_state_def locked_fs_def)
  have f: "fst (flatten_dir [''src''] [''out''] 1 False False locked_state) = Inl PermissionError"
    by (simp add: eval_simps locked_state_def locked_fs_def)
  then have e: "flatten_dir [''src''] [''out''] 1 False False locked_state =
      (Inl PermissionError, snd (flatten_dir [''src''] [''out''] 1 False False locked_state))"
    by (simp add: prod_eq_iff)
  have n: "new_events locked_state (snd (flatten_dir [''src''] [''out''] 1 False False locked_state)) =
     [Copied [''src'', ''a''] [''out'', ''a''] [1], Failed [''src'', ''b''] PermissionError]"
    by (simp add: eval_simps locked_state_def locked_fs_def)
  have c: "fs (snd (flatten_dir [''src''] [''out''] 1 False False locked_state)) [''out'', ''c''] = None"
    by (simp add: eval_simps locked_state_def locked_fs_def)
  from flatten_dir_failure_aborts [OF d e]
  have "last (new_events locked_state (snd (flatten_dir [''src''] [''out''] 1 False False locked_state))) =
     Failed (event_path (last (new_events locked_state
       (snd (flatten_dir [''src''] [''out''] 1 False False locked_state))))) PermissionError"
    by simp
  with d f n c show ?thesis by blast
qed

subsection \<open>C6: running twice with overwrite\<close>

text \<open>
  Claim C6 fails on the code where the source directory is an entry of the destination
  and holds, further down, a file with its own name. \<open>shutil.copy\<close> is given the target
  \<open>o/d\<close>, which is the source directory, and puts the file into it: the first run
  returns \<open>(1, 2)\<close> and leaves a new file \<open>o/d/d\<close> in the source. The second run finds
  that file, is sent to the same place for it, and stops with \<open>SameFileError\<close>.
\<close>

theorem flatten_dir_twice_fails:
  "fst (flatten_dir [''o'', ''d''] [''o''] 1 False True parent_state) = Inr (1, 2) \<and>
   fs parent_state [''o'', ''d'', ''d''] = None \<and>
   fs (snd (flatten_dir [''o'', ''d''] [''o''] 1 False True parent_state)) [''o'', ''d'', ''d''] =
     Some (File rw [1, 2]) \<and>
   fst (flatten_dir [''o'', ''d''] [''o''] 1 False True
     (snd (flatten_dir [''o'', ''d''] [''o''] 1 False True parent_state))) = Inl SameFileError"
  by (simp add: eval_simps parent_state_def parent_fs_def)

subsection \<open>C7: bounds on the totals\<close>

text \<open>
  Claim C7, as amended. For a well-formed file system and a call that returns its
  totals: \<open>n_files\<close> is at most the number of plain files within \<open>recursions_left\<close>
  levels below \<open>indir\<close>, and \<open>n_bytes\<close> is at most the sum of their sizes. If moreover
  the destination is no directory of the source tree and there is no name collision
  (these files have different names, and none of the names exists in \<open>outdir\<close>), then
  both are equal.
\<close>

theorem copied_at_most_reachable:
  assumes "wf_fs (fs s)"
    and "flatten_dir indir outdir recursions_left verbose overwrite s = (Inr (n_files, n_bytes), s')"
  shows "n_files \<le> int (length (files_within (fs s) indir recursions_left)) \<and>
     n_bytes \<le> sum_list (map (file_size (fs s)) (files_within (fs s) indir recursions_left)) \<and>
     (\<not> prefix indir outdir \<and>
      distinct (map name (files_within (fs s) indir recursions_left)) \<and>
      (\<forall>p \<in> set (files_within (fs s) indir recursions_left). \<not> exists_path s (outdir @ [name p])) \<longrightarrow>
        n_files = int (length (files_within (fs s) indir recursions_left)) \<and>
        n_bytes = sum_list (map (file_size (fs s)) (files_within (fs s) indir recursions_left)))"
proof (cases "is_dir s indir")
  case True
  let ?L = "planned_files (fs s) outdir indir recursions_left"
  let ?W = "files_within (fs s) indir recursions_left"
  from flatten_eq_run_files(1) [OF assms(1) True, of outdir recursions_left verbose overwrite] assms(2)
  have run: "run_files ?L outdir verbose overwrite (0, 0) s = (Inr (n_files, n_bytes), s')" by simp
  have facts: "\<forall>p \<in> set ?L. p \<noteq> [] \<and> butlast p \<noteq> outdir"
    using planned_files_facts by blast
  note b = run_files_bytes_le [OF run facts]
  have sub: "subseq ?L ?W" by (rule planned_subseq_within)
  have "int (length ?L) \<le> int (length ?W)"
    using list_emb_length [OF sub] by simp
  moreover have "sum_list (map (file_size (fs s)) ?L) \<le> sum_list (map (file_size (fs s)) ?W)"
    using sub by (rule subseq_sum_le) (rule file_size_nonneg)
  ultimately have le: "n_files \<le> int (length ?W) \<and> n_bytes \<le> sum_list (map (file_size (fs s)) ?W)"
    using b by linarith
  have eq: "n_files = int (length ?W) \<and> n_bytes = sum_list (map (file_size (fs s)) ?W)"
    if h: "\<not> prefix indir outdir \<and> distinct (map name ?W) \<and>
      (\<forall>p \<in> set ?W. \<not> exists_path s (outdir @ [name p]))"
  proof -
    from h planned_is_within [of indir outdir "fs s" recursions_left] have LW: "?L = ?W" by simp
    from run_files_all_copied [OF run] h LW
    have "\<forall>ev \<in> set (new_events s s'). \<not> is_failed ev \<longrightarrow> is_copied ev" by simp
    moreover from flatten_events(3) [OF assms(2) True]
    have "\<forall>ev \<in> set (new_events s s'). \<not> is_failed ev" by simp
    ultimately have "\<forall>ev \<in> set (new_events s s'). is_copied ev" by blast
    with b LW show ?thesis by simp
  qed
  from le eq show ?thesis by blast
next
  case False
  from assms(2) flatten_not_dir [OF False, of outdir recursions_left verbose overwrite]
  have z: "n_files = 0" "n_bytes = 0" and c: "recursions_left < 0 \<or> indir = outdir"
    by (auto split: if_splits)
  have "0 \<le> sum_list (map (file_size (fs s)) (files_within (fs s) indir recursions_left))"
    by (rule sum_list_nonneg) (auto simp: file_size_nonneg)
  moreover have "files_within (fs s) indir recursions_left = []" if "\<not> prefix indir outdir"
    using that c by (auto simp: files_within.simps)
  ultimately show ?thesis using z by auto
qed

theorem copied_at_most_reachable_witness:
  "wf_fs (fs tree_state) \<and>
   fst (flatten_dir [''root''] [''out''] 2 False False tree_state) = Inr (3, 60) \<and>
   files_within (fs tree_state) [''root''] 2 =
     [[''root'', ''a.txt''], [''root'', ''sub'', ''b.txt''], [''root'', ''sub'', ''sub2'', ''c.txt'']] \<and>
   \<not> prefix [''root''] [''out''] \<and>
   (3::int) = int (length (files_within (fs tree_state) [''root''] 2)) \<and>
   (60::int) = sum_list (map (file_size (fs tree_state)) (files_within (fs tree_state) [''root''] 2))"
proof -
  have w: "wf_fs (fs tree_state)" by (simp add: tree_state_def wf_tree_fs)
  have f: "fst (flatten_dir [''root''] [''out''] 2 False False tree_state) = Inr (3, 60)"
    by (simp add: eval_simps tree_state_def tree_fs_def)
  then have e: "flatten_dir [''root''] [''out''] 2 False False tree_state =
      (Inr (3, 60), snd (flatten_dir [''root''] [''out''] 2 False False tree_state))"
    by (simp add: prod_eq_iff)
  have l: "files_within (fs tree_state) [''root''] 2 =
     [[''root'', ''a.txt''], [''root'', ''sub'', ''b.txt''], [''root'', ''sub'', ''sub2'', ''c.txt'']]"
    by (simp add: files_within.simps tree_state_def tree_fs_def)
  have p: "\<not> prefix [''root''] [''out'']" by simp
  have h: "\<not> prefix [''root''] [''out''] \<and>
      distinct (map name (files_within (fs tree_state) [''root''] 2)) \<and>
      (\<forall>p \<in> set (files_within (fs tree_state) [''root''] 2). \<not> exists_path tree_state ([''out''] @ [name p]))"
    unfolding l by (simp add: name_def exists_path_def tree_state_def tree_fs_def)
  from copied_at_most_reachable [OF w e] h
  have "(3::int) = int (length (files_within (fs tree_state) [''root''] 2)) \<and>
   (60::int) = sum_list (map (file_size (fs tree_state)) (files_within (fs tree_state) [''root''] 2))"
    by blast
  with w f l p show ?thesis by blast
qed

text \<open>
  As it is written, C7 has the equality for every traversal without name collisions.
  With the destination in the source tree it fails: \<open>a/f\<close> and \<open>a/out/sub/g\<close> are the
  two plain files within two levels below \<open>a\<close>, their names differ and neither \<open>a/out/f\<close>
  nor \<open>a/out/g\<close> exists, but the guard keeps the traversal out of \<open>a/out\<close> and one file
  is copied.
\<close>

theorem copied_at_most_reachable_counterexample:
  "wf_fs (fs nested_deep_state) \<and>
   files_within (fs nested_deep_state) [''a''] 2 = [[''a'', ''f''], [''a'', ''out'', ''sub'', ''g'']] \<and>
   map name (files_within (fs nested_deep_state) [''a''] 2) = [''f'', ''g''] \<and>
   \<not> exists_path nested_deep_state [''a'', ''out'', ''f''] \<and>
   \<not> exists_path nested_deep_state [''a'', ''out'', ''g''] \<and>
   flatten_dir [''a''] [''a'', ''out''] 2 False False nested_deep_state =
     (Inr (1, 1),
      nested_deep_state\<lparr>fs := write_file nested_deep_fs [''a'', ''out'', ''f''] rw [1],
        trace := [Copied [''a'', ''f''] [''a'', ''out'', ''f''] [1]]\<rparr>) \<and>
   (1::int) \<noteq> int (length (files_within (fs nested_deep_state) [''a''] 2))"
proof -
  have w: "wf_fs (fs nested_deep_state)"
    by (auto simp: wf_fs_def nested_deep_state_def nested_deep_fs_def split: if_splits)
  have l: "files_within (fs nested_deep_state) [''a''] 2 = [[''a'', ''f''], [''a'', ''out'', ''sub'', ''g'']]"
    by (simp add: files_within.simps nested_deep_state_def nested_deep_fs_def)
  have e: "flatten_dir [''a''] [''a'', ''out''] 2 False False nested_deep_state =
     (Inr (1, 1),
      nested_deep_state\<lparr>fs := write_file nested_deep_fs [''a'', ''out'', ''f''] rw [1],
        trace := [Copied [''a'', ''f''] [''a'', ''out'', ''f''] [1]]\<rparr>)"
    by (simp add: eval_simps nested_deep_state_def nested_deep_fs_def)
  have x: "\<not> exists_path nested_deep_state [''a'', ''out'', ''f'']"
    "\<not> exists_path nested_deep_state [''a'', ''out'', ''g'']"
    by (simp_all add: exists_path_def nested_deep_state_def nested_deep_fs_def)
  from w l e x show ?thesis by (simp add: name_def)
qed

subsection \<open>C8: the line of a copy that fails\<close>

text \<open>
  Claim C8 says that \<open>verbose\<close> prints one line for every file that is copied.
  \<open>print\<close> comes before \<open>shutil.copy\<close>, so a copy that fails has printed its line. Here
  \<open>src/a\<close> can be read and \<open>src/b\<close> cannot: the call ends with \<open>PermissionError\<close> after
  printing the lines of \<open>out/a\<close> and \<open>out/b\<close>, and only \<open>out/a\<close> has been copied.
\<close>

theorem verbose_line_for_failed_copy:
  "fs locked_state [''out''] = Some (Dir []) \<and>
   fst (flatten_dir [''src''] [''out''] 1 True False locked_state) = Inl PermissionError \<and>
   out (snd (flatten_dir [''src''] [''out''] 1 True False locked_state)) =
     [[''out'', ''a''], [''out'', ''b'']] \<and>
   new_events locked_state (snd (flatten_dir [''src''] [''out''] 1 True False locked_state)) =
     [Copied [''src'', ''a''] [''out'', ''a''] [1], Failed [''src'', ''b''] PermissionError] \<and>
   fs (snd (flatten_dir [''src''] [''out''] 1 True False locked_state)) [''out''] =
     Some (Dir [''a'']) \<and>
   fs (snd (flatten_dir [''src''] [''out''] 1 True False locked_state)) [''out'', ''a''] =
     Some (File rw [1]) \<and>
   fs (snd (flatten_dir [''src''] [''out''] 1 True False locked_state)) [''out'', ''b''] = None"
  by (simp add: eval_simps locked_state_def locked_fs_def)

subsection \<open>C9: what is left unchanged\<close>

text \<open>
  Claim C9, as amended. Whatever the call does, it does under \<open>outdir\<close>: no path that
  is not \<open>outdir\<close> or below it is changed, created or removed. A plain file that was
  there before is still a plain file afterwards, and it has its bytes unless a source
  file of the same name was copied. A directory that was there before is still a
  directory and lists at least the names it listed.
\<close>

theorem flatten_dir_frame:
  assumes "flatten_dir indir outdir recursions_left verbose overwrite s = (x, s')"
  shows "(\<forall>q. \<not> prefix outdir q \<longrightarrow> fs s' q = fs s q) \<and>
     (\<forall>q rd bs. fs s q = Some (File rd bs) \<longrightarrow>
        (\<exists>rd' bs'. fs s' q = Some (File rd' bs')) \<and>
        (name q \<notin> set (map (\<lambda>ev. name (event_path ev)) (filter is_copied (new_events s s'))) \<longrightarrow>
           fs s' q = Some (File rd bs))) \<and>
     (\<forall>q ns. fs s q = Some (Dir ns) \<longrightarrow> (\<exists>ns'. fs s' q = Some (Dir ns') \<and> set ns \<subseteq> set ns'))"
proof (cases "is_dir s indir")
  case True
  from flatten_is_run(1) [OF True, of outdir recursions_left verbose overwrite] obtain L where
    "flatten_dir indir outdir recursions_left verbose overwrite s = run_files L outdir verbose overwrite (0, 0) s"
    by blast
  with assms have run: "run_files L outdir verbose overwrite (0, 0) s = (x, s')" by simp
  note g = run_files_grows [OF run] and f = run_files_frame [OF run]
  show ?thesis
  proof (intro conjI allI impI)
    fix q assume "\<not> prefix outdir q"
    with f show "fs s' q = fs s q" by blast
  next
    fix q rd bs assume "fs s q = Some (File rd bs)"
    from grows_File [OF g this] show "\<exists>rd' bs'. fs s' q = Some (File rd' bs')" .
  next
    fix q rd bs
    assume "fs s q = Some (File rd bs)"
      "name q \<notin> set (map (\<lambda>ev. name (event_path ev)) (filter is_copied (new_events s s')))"
    with f show "fs s' q = Some (File rd bs)" by blast
  next
    fix q ns assume "fs s q = Some (Dir ns)"
    from grows_Dir [OF g this] show "\<exists>ns'. fs s' q = Some (Dir ns') \<and> set ns \<subseteq> set ns'" by blast
  qed
next
  case False
  from assms flatten_not_dir [OF False, of outdir recursions_left verbose overwrite]
  have "s' = s" by (auto split: if_splits)
  then show ?thesis by simp
qed

theorem flatten_dir_frame_witness:
  "fst (flatten_dir [''src''] [''out''] 1 False True collision_state) = Inr (2, 4) \<and>
   \<not> prefix [''out''] [''src'', ''f''] \<and>
   fs (snd (flatten_dir [''src''] [''out''] 1 False True collision_state)) [''src'', ''f''] =
     fs collision_state [''src'', ''f''] \<and>
   fs collision_state [''out'', ''g''] = Some (File rw [7, 7]) \<and>
   name [''out'', ''g''] \<notin> set (map (\<lambda>ev. name (event_path ev)) (filter is_copied
     (new_events collision_state (snd (flatten_dir [''src''] [''out''] 1 False True collision_state))))) \<and>
   fs (snd (flatten_dir [''src''] [''out''] 1 False True collision_state)) [''out'', ''g''] =
     Some (File rw [7, 7]) \<and>
   fs (snd (flatten_dir [''src''] [''out''] 1 False True collision_state)) [''out'', ''f''] =
     Some (File rw [1, 2, 3])"
proof -
  have f: "fst (flatten_dir [''src''] [''out''] 1 False True collision_state) = Inr (2, 4)"
    by (simp add: eval_simps collision_state_def collision_fs_def)
  then have e: "flatten_dir [''src''] [''out''] 1 False True collision_state =
      (Inr (2, 4), snd (flatten_dir [''src''] [''out''] 1 False True collision_state))"
    by (simp add: prod_eq_iff)
  have p: "\<not> prefix [''out''] [''src'', ''f'']" by simp
  have g: "fs collision_state [''out'', ''g''] = Some (File rw [7, 7])"
    by (simp add: collision_state_def collision_fs_def)
  have n: "name [''out'', ''g''] \<notin> set (map (\<lambda>ev. name (event_path ev)) (filter is_copied
     (new_events collision_state (snd (flatten_dir [''src''] [''out''] 1 False True collision_state)))))"
    by (simp add: eval_simps collision_state_def collision_fs_def)
  have o: "fs (snd (flatten_dir [''src''] [''out''] 1 False True collision_state)) [''out'', ''f''] =
     Some (File rw [1, 2, 3])"
    by (simp add: eval_simps collision_state_def collision_fs_def)
  note t = flatten_dir_frame [OF e]
  from t p have "fs (snd (flatten_dir [''src''] [''out''] 1 False True collision_state)) [''src'', ''f''] =
     fs collision_state [''src'', ''f'']" by blast
  moreover from t g n have "fs (snd (flatten_dir [''src''] [''out''] 1 False True collision_state)) [''out'', ''g''] =
     Some (File rw [7, 7])" by blast
  ultimately show ?thesis using f p g n o by blast
qed

text \<open>
  As it is written, C9 says that the source tree is never modified. It is, when the
  destination lies in it: \<open>a/out/f\<close> is a plain file of the tree of \<open>a\<close>, one level
  down, and the call with \<open>overwrite\<close> replaces its bytes by those of \<open>a/f\<close>.
\<close>

theorem flatten_dir_frame_counterexample:
  "file_at_depth nested_state [''a''] (Suc 0) [''a'', ''out'', ''f''] \<and>
   fs nested_state [''a'', ''out'', ''f''] = Some (File rw [2, 2]) \<and>
   fst (flatten_dir [''a''] [''a'', ''out''] 1 False True nested_state) = Inr (1, 1) \<and>
   fs (snd (flatten_dir [''a''] [''a'', ''out''] 1 False True nested_state)) [''a'', ''out'', ''f''] =
     Some (File rw [1])"
  by (simp add: eval_simps file_at_depth.simps nested_state_def nested_fs_def)

subsection \<open>C10: the guard below the top level\<close>

text \<open>
  Claim C10. The guard \<open>indir == outdir\<close> is tested by every call, so it also stops the
  recursive call that the loop makes when it meets the destination as an entry of a
  directory it walks: that entry adds nothing to the totals and changes nothing,
  whatever the state and the recursion budget are at that point. So when the
  destination lies in the source tree, no file inside the destination is ever reached
  by the traversal, neither skipped nor copied nor tried: what has been copied into the
  destination is not taken as a source again.
\<close>

theorem flatten_dir_guard_at_every_level:
  assumes "prefix indir outdir"
    and "flatten_dir indir outdir recursions_left verbose overwrite s = (x, s')"
  shows "(\<forall>ev \<in> set (new_events s s'). \<not> strict_prefix outdir (event_path ev)) \<and>
     (\<forall>rest r acc t. is_dir t outdir \<longrightarrow>
        flatten_loop (outdir # rest) outdir r verbose overwrite acc t =
        flatten_loop rest outdir r verbose overwrite acc t)"
proof (intro conjI allI impI)
  show "\<forall>ev \<in> set (new_events s s'). \<not> strict_prefix outdir (event_path ev)"
  proof (cases "is_dir s indir")
    case True
    from flatten_events(4) [OF assms(2) True] assms(1) show ?thesis by blast
  next
    case False
    from assms(2) flatten_not_dir [OF False, of outdir recursions_left verbose overwrite]
    show ?thesis by (auto simp: new_events_def split: if_splits)
  qed
next
  fix rest r and acc :: "int \<times> int" and t
  assume d: "is_dir t outdir"
  obtain a b where acc: "acc = (a, b)" by (cases acc) auto
  have "flatten_dir outdir outdir (r - 1) verbose overwrite t = (Inr (0, 0), t)"
    by (simp add: flatten_dir.simps)
  with d acc show "flatten_loop (outdir # rest) outdir r verbose overwrite acc t =
        flatten_loop rest outdir r verbose overwrite acc t"
    by (simp add: flatten_loop_dir)
qed

theorem flatten_dir_guard_at_every_level_witness:
  "prefix [''a''] [''a'', ''out''] \<and>
   flatten_dir [''a''] [''a'', ''out''] 5 False True nested_state =
     (Inr (1, 1),
      nested_state\<lparr>fs := write_file nested_fs [''a'', ''out'', ''f''] rw [1],
        trace := [Copied [''a'', ''f''] [''a'', ''out'', ''f''] [1]]\<rparr>) \<and>
   \<not> strict_prefix [''a'', ''out''] (event_path (Copied [''a'', ''f''] [''a'', ''out'', ''f''] [1])) \<and>
   is_dir nested_state [''a'', ''out''] \<and>
   flatten_loop [[''a'', ''out'']] [''a'', ''out''] 5 False True (1, 1) nested_state =
     flatten_loop [] [''a'', ''out''] 5 False True (1, 1) nested_state"
proof -
  have p: "prefix [''a''] [''a'', ''out'']" by simp
  have e: "flatten_dir [''a''] [''a'', ''out''] 5 False True nested_state =
     (Inr (1, 1),
      nested_state\<lparr>fs := write_file nested_fs [''a'', ''out'', ''f''] rw [1],
        trace := [Copied [''a'', ''f''] [''a'', ''out'', ''f''] [1]]\<rparr>)"
    by (simp add: eval_simps nested_state_def nested_fs_def)
  have d: "is_dir nested_state [''a'', ''out'']"
    by (simp add: is_dir_def nested_state_def nested_fs_def)
  note g = flatten_dir_guard_at_every_level [OF p e]
  from g have "\<not> strict_prefix [''a'', ''out''] (event_path (Copied [''a'', ''f''] [''a'', ''out'', ''f''] [1]))"
    by (simp add: new_events_def nested_state_def)
  moreover from g d have "flatten_loop [[''a'', ''out'']] [''a'', ''out''] 5 False True (1, 1) nested_state =
     flatten_loop [] [''a'', ''out''] 5 False True (1, 1) nested_state"
    by blast
  ultimately show ?thesis using p e d by blast
qed

end
